theory Spec2Isabelle
  imports Complex_Main
begin

section \<open>Crypto Price Tracker: the alert loop and the price history of \<^verbatim>\<open>crypto.py\<close>\<close>

text \<open>
  \<^verbatim>\<open>crypto.py\<close> is a Streamlit script: one run of the script is one polling cycle.
  What survives from one run to the next is \<^verbatim>\<open>st.session_state\<close>, with the three
  entries \<^verbatim>\<open>history\<close>, \<^verbatim>\<open>last_alert_state\<close> and \<^verbatim>\<open>thresholds\<close>.
  The theory embeds the two loops over \<^verbatim>\<open>coins\<close> that touch this state: the history
  update (lines 188 to 199) and the alert logic (lines 234 to 273).
\<close>

subsection \<open>Values\<close>

type_synonym coin = string

text \<open>
  A price is the number found in the JSON answer of the price API, a finite number;
  it is modelled as a real, on which \<^verbatim>\<open><=\<close> and \<^verbatim>\<open>>=\<close> are the order of the
  finite floats.

  \<^verbatim>\<open>float(lower)\<close> can also give an infinity or a NaN (a missing value of a numeric
  pandas column is NaN; the text \<^verbatim>\<open>inf\<close> is accepted by \<^verbatim>\<open>float\<close>). Every
  comparison with NaN is false.
\<close>

datatype pyfloat = Fin real | PosInf | NegInf | NaN

fun py_le :: "real \<Rightarrow> pyfloat \<Rightarrow> bool" where
  "py_le p (Fin b) = (p \<le> b)"
| "py_le p PosInf = True"
| "py_le p NegInf = False"
| "py_le p NaN = False"

fun py_ge :: "real \<Rightarrow> pyfloat \<Rightarrow> bool" where
  "py_ge p (Fin b) = (p \<ge> b)"
| "py_ge p PosInf = False"
| "py_ge p NegInf = True"
| "py_ge p NaN = False"

text \<open>
  A cell of the columns \<^verbatim>\<open>lower\<close> and \<^verbatim>\<open>upper\<close> of the editable table:
  \<^verbatim>\<open>None\<close>; a value that \<^verbatim>\<open>float\<close> converts (a number, or a text such as
  \<^verbatim>\<open>"100"\<close>), held as the float it converts to; or a text that \<^verbatim>\<open>float\<close>
  rejects, such as \<^verbatim>\<open>"abc"\<close>.
\<close>

datatype cell = PyNone | Number pyfloat | Malformed string

datatype error = TypeError | ValueError

text \<open>The builtin \<^verbatim>\<open>float\<close> on a cell.\<close>

fun float_py :: "cell \<Rightarrow> error + pyfloat" where
  "float_py PyNone = Inl TypeError"
| "float_py (Number x) = Inr x"
| "float_py (Malformed s) = Inl ValueError"

record threshold_row =
  coin :: coin
  lower :: cell
  upper :: cell

text \<open>The dictionary \<^verbatim>\<open>{"above": bool, "below": bool}\<close> kept for each coin.\<close>

record edge_state =
  above :: bool
  below :: bool

text \<open>
  An entry \<^verbatim>\<open>(c, msg)\<close> of \<^verbatim>\<open>triggered_alerts\<close>. The message is an f-string over
  the coin, the price, the currency and the bound; the record keeps these and which
  of the two texts it is (\<open>Below\<close> for \<^verbatim>\<open>is <= lower threshold\<close>, \<open>Above\<close> for
  \<^verbatim>\<open>is >= upper threshold\<close>).
\<close>

datatype direction = Below | Above

record alert =
  asset :: coin
  direction :: direction
  at_price :: real
  currency :: string
  bound :: cell

abbreviation below_alert :: "coin \<Rightarrow> real \<Rightarrow> string \<Rightarrow> cell \<Rightarrow> alert" where
  "below_alert c price vs_currency lo \<equiv>
     \<lparr>asset = c, direction = Below, at_price = price, currency = vs_currency, bound = lo\<rparr>"

abbreviation above_alert :: "coin \<Rightarrow> real \<Rightarrow> string \<Rightarrow> cell \<Rightarrow> alert" where
  "above_alert c price vs_currency up \<equiv>
     \<lparr>asset = c, direction = Above, at_price = price, currency = vs_currency, bound = up\<rparr>"

text \<open>
  The three entries of \<^verbatim>\<open>st.session_state\<close>. \<open>thresholds\<close> is the table as line 237
  reads it, after the edits of the operator; a coin may have no row in it, and rows
  may repeat a coin.
\<close>

record session =
  history :: "coin \<rightharpoonup> real list"
  last_alert_state :: "coin \<rightharpoonup> edge_state"
  thresholds :: "threshold_row list"

subsection \<open>The price of a coin in the fetched data\<close>

text \<open>
  \<^verbatim>\<open>d = price_data.get(c, {}); price = d.get(vs_currency)\<close>: the answer of
  \<^verbatim>\<open>fetch_prices\<close> is a dictionary from coins to dictionaries from currencies to
  numbers, and \<^verbatim>\<open>{}\<close> when the request failed.
\<close>

type_synonym price_data = "coin \<rightharpoonup> (string \<rightharpoonup> real)"

definition price_of :: "price_data \<Rightarrow> string \<Rightarrow> coin \<Rightarrow> real option" where
  "price_of price_data vs_currency c =
     (case price_data c of None \<Rightarrow> None | Some d \<Rightarrow> d vs_currency)"

subsection \<open>The history update\<close>

definition HISTORY_LEN :: nat where
  "HISTORY_LEN = 300"

text \<open>
  Lines 194 to 199 on the list of one coin; \<open>None\<close> is a coin without an entry in
  \<^verbatim>\<open>history\<close>, and the result \<open>None\<close> says that no entry is stored.
  \<^verbatim>\<open>hist[-HISTORY_LEN:]\<close> is taken only when the list is longer than
  \<^verbatim>\<open>HISTORY_LEN\<close>, and is then its last \<^verbatim>\<open>HISTORY_LEN\<close> elements.
\<close>

definition append_price :: "real list option \<Rightarrow> real option \<Rightarrow> real list option" where
  "append_price entry price =
     (let hist = (case entry of None \<Rightarrow> [] | Some l \<Rightarrow> l) in
      case price of
        None \<Rightarrow> entry
      | Some p \<Rightarrow>
          (let hist1 = hist @ [p];
               hist2 = (if length hist1 > HISTORY_LEN
                        then drop (length hist1 - HISTORY_LEN) hist1 else hist1)
           in Some hist2))"

definition update_history ::
  "price_data \<Rightarrow> string \<Rightarrow> (coin \<rightharpoonup> real list) \<Rightarrow> coin \<Rightarrow> (coin \<rightharpoonup> real list)" where
  "update_history price_data vs_currency h c =
     h(c := append_price (h c) (price_of price_data vs_currency c))"

text \<open>The loop \<^verbatim>\<open>for c in coins\<close> of line 188.\<close>

definition history_loop ::
  "price_data \<Rightarrow> string \<Rightarrow> coin list \<Rightarrow> (coin \<rightharpoonup> real list) \<Rightarrow> (coin \<rightharpoonup> real list)" where
  "history_loop price_data vs_currency coins h =
     foldl (update_history price_data vs_currency) h coins"

subsection \<open>The alert logic\<close>

text \<open>
  Line 237: a dictionary comprehension over the rows of the table; a later row with
  the same coin replaces an earlier one.
\<close>

definition th_map :: "threshold_row list \<Rightarrow> (coin \<rightharpoonup> threshold_row)" where
  "th_map rows = foldl (\<lambda>m row. m(coin row \<mapsto> row)) Map.empty rows"

text \<open>
  Lines 255 and 256. \<^verbatim>\<open>and\<close> does not evaluate its right operand when the left
  one is false, so \<^verbatim>\<open>float\<close> is not called on \<^verbatim>\<open>None\<close>; on any other cell it is
  called and may raise.
\<close>

definition crossed_below :: "real \<Rightarrow> cell \<Rightarrow> error + bool" where
  "crossed_below price lo =
     (if lo = PyNone then Inr False
      else case float_py lo of Inl e \<Rightarrow> Inl e | Inr b \<Rightarrow> Inr (py_le price b))"

definition crossed_above :: "real \<Rightarrow> cell \<Rightarrow> error + bool" where
  "crossed_above price up =
     (if up = PyNone then Inr False
      else case float_py up of Inl e \<Rightarrow> Inl e | Inr b \<Rightarrow> Inr (py_ge price b))"

text \<open>Lines 259 to 264: the branch on \<^verbatim>\<open>crossed_below\<close>.\<close>

definition below_branch ::
  "coin \<Rightarrow> real \<Rightarrow> string \<Rightarrow> cell \<Rightarrow> bool \<Rightarrow> edge_state \<Rightarrow> alert list \<times> edge_state" where
  "below_branch c price vs_currency lo cb last_state =
     (if cb \<and> \<not> below last_state then
        ([\<lparr>asset = c, direction = Below, at_price = price,
           currency = vs_currency, bound = lo\<rparr>],
         last_state\<lparr>below := True\<rparr>)
      else if \<not> cb then ([], last_state\<lparr>below := False\<rparr>)
      else ([], last_state))"

text \<open>Lines 266 to 271: the branch on \<^verbatim>\<open>crossed_above\<close>.\<close>

definition above_branch ::
  "coin \<Rightarrow> real \<Rightarrow> string \<Rightarrow> cell \<Rightarrow> bool \<Rightarrow> edge_state \<Rightarrow> alert list \<times> edge_state" where
  "above_branch c price vs_currency up ca last_state =
     (if ca \<and> \<not> above last_state then
        ([\<lparr>asset = c, direction = Above, at_price = price,
           currency = vs_currency, bound = up\<rparr>],
         last_state\<lparr>above := True\<rparr>)
      else if \<not> ca then ([], last_state\<lparr>above := False\<rparr>)
      else ([], last_state))"

text \<open>
  Lines 249 to 273 for a coin with a price and a row: the alerts appended to
  \<^verbatim>\<open>triggered_alerts\<close>, in order, and the state stored at line 273. Both
  conversions happen before anything is appended or stored, so an exception leaves
  neither an alert nor a new state for this coin.
\<close>

definition evaluate ::
  "coin \<Rightarrow> real \<Rightarrow> string \<Rightarrow> threshold_row \<Rightarrow> edge_state \<Rightarrow> error + (alert list \<times> edge_state)" where
  "evaluate c price vs_currency th last_state =
     (case crossed_below price (lower th) of
        Inl e \<Rightarrow> Inl e
      | Inr cb \<Rightarrow>
          (case crossed_above price (upper th) of
             Inl e \<Rightarrow> Inl e
           | Inr ca \<Rightarrow>
               (let (ev1, s1) = below_branch c price vs_currency (lower th) cb last_state;
                    (ev2, s2) = above_branch c price vs_currency (upper th) ca s1
                in Inr (ev1 @ ev2, s2))))"

text \<open>
  Line 253: \<^verbatim>\<open>last_alert_state.get(c, {"above": False, "below": False})\<close>, on the
  entry of the coin.
\<close>

definition cleared :: edge_state where
  "cleared = \<lparr>above = False, below = False\<rparr>"

definition get_last_state :: "edge_state option \<Rightarrow> edge_state" where
  "get_last_state stored = (case stored of None \<Rightarrow> cleared | Some s \<Rightarrow> s)"

text \<open>
  The body of the loop of line 239 for one coin, on what it reads: the price, the row
  and the stored state of the coin. \<^verbatim>\<open>continue\<close> gives no alert and stores nothing.
\<close>

definition alert_body ::
  "coin \<Rightarrow> string \<Rightarrow> real option \<Rightarrow> threshold_row option \<Rightarrow> edge_state option
     \<Rightarrow> error + (alert list \<times> edge_state option)" where
  "alert_body c vs_currency price th stored =
     (case price of
        None \<Rightarrow> Inr ([], stored)
      | Some p \<Rightarrow>
          (case th of
             None \<Rightarrow> Inr ([], stored)
           | Some row \<Rightarrow>
               (case evaluate c p vs_currency row (get_last_state stored) of
                  Inl e \<Rightarrow> Inl e
                | Inr (evs, s') \<Rightarrow> Inr (evs, Some s'))))"

text \<open>
  The loop of line 239. An exception ends the run of the script: the states stored so
  far stay in the session, and the alerts collected so far are never logged or sent.
\<close>

fun alert_loop ::
  "price_data \<Rightarrow> string \<Rightarrow> (coin \<rightharpoonup> threshold_row) \<Rightarrow> coin list
     \<Rightarrow> (coin \<rightharpoonup> edge_state) \<Rightarrow> alert list
     \<Rightarrow> (coin \<rightharpoonup> edge_state) \<times> (error + alert list)" where
  "alert_loop price_data vs_currency thm [] las triggered_alerts =
     (las, Inr triggered_alerts)"
| "alert_loop price_data vs_currency thm (c # cs) las triggered_alerts =
     (case alert_body c vs_currency (price_of price_data vs_currency c) (thm c) (las c) of
        Inl e \<Rightarrow> (las, Inl e)
      | Inr (evs, s') \<Rightarrow>
          alert_loop price_data vs_currency thm cs (las(c := s')) (triggered_alerts @ evs))"

text \<open>
  One run of the script on the session: the history loop, then the alert loop. The
  result is the session after the run and either the exception that ended it or the
  alerts handed to the log and the mailer.
\<close>

definition cycle ::
  "coin list \<Rightarrow> string \<Rightarrow> price_data \<Rightarrow> session \<Rightarrow> session \<times> (error + alert list)" where
  "cycle coins vs_currency price_data s =
     (let h = history_loop price_data vs_currency coins (history s);
          (las, res) = alert_loop price_data vs_currency (th_map (thresholds s)) coins
                         (last_alert_state s) []
      in (s\<lparr>history := h, last_alert_state := las\<rparr>, res))"

subsection \<open>Successive runs of the script\<close>

text \<open>
  The cycles of one coin: the body of the alert loop applied to the successive prices
  of the coin (\<open>None\<close> for a cycle without a quote), each cycle reading the state the
  previous one stored. The row of the coin is the same in every cycle. The result
  lists the alerts of every cycle.
\<close>

fun feed ::
  "coin \<Rightarrow> string \<Rightarrow> threshold_row option \<Rightarrow> edge_state option \<Rightarrow> real option list
     \<Rightarrow> error + (alert list list \<times> edge_state option)" where
  "feed c vs_currency th stored [] = Inr ([], stored)"
| "feed c vs_currency th stored (price # prices) =
     (case alert_body c vs_currency price th stored of
        Inl e \<Rightarrow> Inl e
      | Inr (evs, s') \<Rightarrow>
          (case feed c vs_currency th s' prices of
             Inl e \<Rightarrow> Inl e
           | Inr (evss, s'') \<Rightarrow> Inr (evs # evss, s'')))"

text \<open>
  The runs of the script on the successive answers of the price API, with the same
  coins, currency and table; the runs stop at the first exception.
\<close>

fun run ::
  "coin list \<Rightarrow> string \<Rightarrow> session \<Rightarrow> price_data list \<Rightarrow> session \<times> (error + alert list list)" where
  "run coins vs_currency s [] = (s, Inr [])"
| "run coins vs_currency s (pd # pds) =
     (case cycle coins vs_currency pd s of
        (s', Inl e) \<Rightarrow> (s', Inl e)
      | (s', Inr out) \<Rightarrow>
          (case run coins vs_currency s' pds of
             (s'', Inl e) \<Rightarrow> (s'', Inl e)
           | (s'', Inr outs) \<Rightarrow> (s'', Inr (out # outs))))"

text \<open>The buffer of a coin as the charts read it: \<^verbatim>\<open>history.get(c, [])\<close>.\<close>

definition get_hist :: "real list option \<Rightarrow> real list" where
  "get_hist entry = (case entry of None \<Rightarrow> [] | Some l \<Rightarrow> l)"

text \<open>The prices that were present, in the order of the cycles.\<close>

definition present :: "real option list \<Rightarrow> real list" where
  "present prices = concat (map (\<lambda>price. case price of None \<Rightarrow> [] | Some p \<Rightarrow> [p]) prices)"

fun is_malformed :: "cell \<Rightarrow> bool" where
  "is_malformed (Malformed s) = True"
| "is_malformed PyNone = False"
| "is_malformed (Number x) = False"

text \<open>
  The session of a first run (lines 145 to 149: both dictionaries are created empty),
  with the table as the operator has edited it.
\<close>

definition first_session :: "threshold_row list \<Rightarrow> session" where
  "first_session rows = \<lparr>history = Map.empty, last_alert_state = Map.empty, thresholds = rows\<rparr>"

text \<open>An answer of the price API with one coin in one currency.\<close>

definition one_quote :: "coin \<Rightarrow> string \<Rightarrow> real \<Rightarrow> price_data" where
  "one_quote c vs_currency p = [c \<mapsto> [vs_currency \<mapsto> p]]"

definition of_coin :: "coin \<Rightarrow> alert list \<Rightarrow> alert list" where
  "of_coin c evs = filter (\<lambda>a. asset a = c) evs"

definition of_direction :: "direction \<Rightarrow> alert list \<Rightarrow> alert list" where
  "of_direction d evs = filter (\<lambda>a. direction a = d) evs"

section \<open>Properties of the loop bodies\<close>

subsection \<open>The conversions and the two branches\<close>

lemma crossed_below_cases:
  "crossed_below p PyNone = Inr False"
  "crossed_below p (Number b) = Inr (py_le p b)"
  "crossed_below p (Malformed t) = Inl ValueError"
  by (simp_all add: crossed_below_def)

lemma crossed_above_cases:
  "crossed_above p PyNone = Inr False"
  "crossed_above p (Number b) = Inr (py_ge p b)"
  "crossed_above p (Malformed t) = Inl ValueError"
  by (simp_all add: crossed_above_def)

lemma crossed_below_ok:
  "\<not> is_malformed lo \<Longrightarrow> crossed_below p lo = Inr (\<exists>b. lo = Number b \<and> py_le p b)"
  by (cases lo) (simp_all add: crossed_below_cases)

lemma crossed_above_ok:
  "\<not> is_malformed up \<Longrightarrow> crossed_above p up = Inr (\<exists>b. up = Number b \<and> py_ge p b)"
  by (cases up) (simp_all add: crossed_above_cases)

lemma crossed_below_Inr: "crossed_below p lo = Inr cb \<Longrightarrow> \<not> is_malformed lo"
  by (cases lo) (simp_all add: crossed_below_cases)

lemma crossed_above_Inr: "crossed_above p up = Inr ca \<Longrightarrow> \<not> is_malformed up"
  by (cases up) (simp_all add: crossed_above_cases)

lemma below_branch_state:
  "snd (below_branch c p vs lo cb s) = s\<lparr>below := cb\<rparr>"
  by (cases "below s") (auto simp: below_branch_def)

lemma above_branch_state:
  "snd (above_branch c p vs up ca s) = s\<lparr>above := ca\<rparr>"
  by (cases "above s") (auto simp: above_branch_def)

lemma below_branch_events:
  "fst (below_branch c p vs lo cb s) =
     (if cb \<and> \<not> below s
      then [\<lparr>asset = c, direction = Below, at_price = p, currency = vs, bound = lo\<rparr>] else [])"
  by (simp add: below_branch_def)

lemma above_branch_events:
  "fst (above_branch c p vs up ca s) =
     (if ca \<and> \<not> above s
      then [\<lparr>asset = c, direction = Above, at_price = p, currency = vs, bound = up\<rparr>] else [])"
  by (simp add: above_branch_def)

lemma evaluate_ok:
  assumes "\<not> is_malformed (lower th)" "\<not> is_malformed (upper th)"
  shows "evaluate c p vs th s =
     Inr ((if (\<exists>b. lower th = Number b \<and> py_le p b) \<and> \<not> below s
           then [\<lparr>asset = c, direction = Below, at_price = p, currency = vs, bound = lower th\<rparr>]
           else [])
          @ (if (\<exists>b. upper th = Number b \<and> py_ge p b) \<and> \<not> above s
             then [\<lparr>asset = c, direction = Above, at_price = p, currency = vs, bound = upper th\<rparr>]
             else []),
          \<lparr>above = (\<exists>b. upper th = Number b \<and> py_ge p b),
           below = (\<exists>b. lower th = Number b \<and> py_le p b)\<rparr>)"
proof -
  let ?cb = "\<exists>b. lower th = Number b \<and> py_le p b"
  let ?ca = "\<exists>b. upper th = Number b \<and> py_ge p b"
  obtain ev1 s1 where b: "below_branch c p vs (lower th) ?cb s = (ev1, s1)"
    by (cases "below_branch c p vs (lower th) ?cb s")
  obtain ev2 s2 where a: "above_branch c p vs (upper th) ?ca s1 = (ev2, s2)"
    by (cases "above_branch c p vs (upper th) ?ca s1")
  have s1: "s1 = s\<lparr>below := ?cb\<rparr>"
    using below_branch_state [of c p vs "lower th" ?cb s] b by simp
  have s2: "s2 = s1\<lparr>above := ?ca\<rparr>"
    using above_branch_state [of c p vs "upper th" ?ca s1] a by simp
  have e1: "ev1 = (if ?cb \<and> \<not> below s
      then [\<lparr>asset = c, direction = Below, at_price = p, currency = vs, bound = lower th\<rparr>] else [])"
    using below_branch_events [of c p vs "lower th" ?cb s] b by simp
  have e2: "ev2 = (if ?ca \<and> \<not> above s1
      then [\<lparr>asset = c, direction = Above, at_price = p, currency = vs, bound = upper th\<rparr>] else [])"
    using above_branch_events [of c p vs "upper th" ?ca s1] a by simp
  have "evaluate c p vs th s = Inr (ev1 @ ev2, s2)"
    by (simp add: evaluate_def crossed_below_ok [OF assms(1)] crossed_above_ok [OF assms(2)] a b)
  moreover have "above s1 = above s" by (simp add: s1)
  moreover have "s2 = \<lparr>above = ?ca, below = ?cb\<rparr>" by (simp add: s1 s2)
  ultimately show ?thesis by (simp only: e1 e2)
qed

lemma evaluate_Inr:
  "evaluate c p vs th s = Inr r \<Longrightarrow> \<not> is_malformed (lower th) \<and> \<not> is_malformed (upper th)"
  by (auto simp: evaluate_def split: sum.splits dest: crossed_below_Inr crossed_above_Inr)

lemma evaluate_raises:
  "is_malformed (lower th) \<or> is_malformed (upper th) \<Longrightarrow> evaluate c p vs th s = Inl ValueError"
  apply (cases "lower th"; cases "upper th")
  apply (auto simp: evaluate_def crossed_below_cases crossed_above_cases)
  done

lemma alert_body_absent: "alert_body c vs None th stored = Inr ([], stored)"
  by (simp add: alert_body_def)

lemma alert_body_no_row: "alert_body c vs price None stored = Inr ([], stored)"
  by (simp add: alert_body_def split: option.splits)

lemma evaluate_asset:
  assumes "evaluate c p vs th s = Inr (evs, s')"
  shows "of_coin c evs = evs" and "c' \<noteq> c \<Longrightarrow> of_coin c' evs = []"
proof -
  have m: "\<not> is_malformed (lower th)" "\<not> is_malformed (upper th)"
    using evaluate_Inr [OF assms] by simp_all
  show "of_coin c evs = evs"
    using assms unfolding evaluate_ok [OF m] of_coin_def by auto
  show "c' \<noteq> c \<Longrightarrow> of_coin c' evs = []"
    using assms unfolding evaluate_ok [OF m] of_coin_def by auto
qed

lemma alert_body_asset:
  assumes "alert_body c vs price th stored = Inr (evs, s')"
  shows "of_coin c evs = evs" and "c' \<noteq> c \<Longrightarrow> of_coin c' evs = []"
  using assms evaluate_asset [of c _ vs _ _ evs]
  by (auto simp: alert_body_def of_coin_def split: option.splits sum.splits)

lemma of_coin_append: "of_coin c (xs @ ys) = of_coin c xs @ of_coin c ys"
  by (simp add: of_coin_def)

lemma alert_loop_other:
  "c \<notin> set cs \<Longrightarrow> alert_loop pd vs thm cs las acc = (las', res) \<Longrightarrow>
     las' c = las c \<and> (\<forall>out. res = Inr out \<longrightarrow> of_coin c out = of_coin c acc)"
proof (induction cs arbitrary: las acc)
  case Nil
  then show ?case by auto
next
  case (Cons x cs)
  show ?case
  proof (cases "alert_body x vs (price_of pd vs x) (thm x) (las x)")
    case (Inl e)
    with Cons.prems show ?thesis by auto
  next
    case (Inr r)
    obtain evs s' where r: "r = (evs, s')" by (cases r)
    from Cons.prems Inr r
    have rec: "alert_loop pd vs thm cs (las(x := s')) (acc @ evs) = (las', res)" by simp
    from Cons.prems have "c \<notin> set cs" "c \<noteq> x" by auto
    from Cons.IH [OF \<open>c \<notin> set cs\<close> rec] alert_body_asset(2) [OF Inr [unfolded r] \<open>c \<noteq> x\<close>] \<open>c \<noteq> x\<close>
    show ?thesis by (simp add: of_coin_append)
  qed
qed

lemma alert_loop_skip:
  "price_of pd vs c = None \<or> thm c = None \<Longrightarrow> alert_loop pd vs thm cs las acc = (las', res) \<Longrightarrow>
     las' c = las c \<and> (\<forall>out. res = Inr out \<longrightarrow> of_coin c out = of_coin c acc)"
proof (induction cs arbitrary: las acc)
  case Nil
  then show ?case by auto
next
  case (Cons x cs)
  show ?case
  proof (cases "alert_body x vs (price_of pd vs x) (thm x) (las x)")
    case (Inl e)
    with Cons.prems show ?thesis by auto
  next
    case (Inr r)
    obtain evs s' where r: "r = (evs, s')" by (cases r)
    from Cons.prems Inr r
    have rec: "alert_loop pd vs thm cs (las(x := s')) (acc @ evs) = (las', res)" by simp
    have step: "(las(x := s')) c = las c \<and> of_coin c evs = []"
    proof (cases "x = c")
      case True
      with Cons.prems(1) Inr r show ?thesis
        by (auto simp: alert_body_absent alert_body_no_row of_coin_def)
    next
      case False
      with alert_body_asset(2) [OF Inr [unfolded r], of c] show ?thesis by simp
    qed
    from Cons.IH [OF Cons.prems(1) rec] step
    show ?thesis by (simp add: of_coin_append)
  qed
qed

lemma alert_loop_local:
  "distinct cs \<Longrightarrow> c \<in> set cs \<Longrightarrow> alert_loop pd vs thm cs las acc = (las', Inr out) \<Longrightarrow>
     \<exists>evs. alert_body c vs (price_of pd vs c) (thm c) (las c) = Inr (evs, las' c)
          \<and> of_coin c out = of_coin c acc @ evs"
proof (induction cs arbitrary: las acc)
  case Nil
  then show ?case by simp
next
  case (Cons x cs)
  show ?case
  proof (cases "alert_body x vs (price_of pd vs x) (thm x) (las x)")
    case (Inl e)
    with Cons.prems show ?thesis by auto
  next
    case (Inr r)
    obtain evs s' where r: "r = (evs, s')" by (cases r)
    from Cons.prems Inr r
    have rec: "alert_loop pd vs thm cs (las(x := s')) (acc @ evs) = (las', Inr out)" by simp
    show ?thesis
    proof (cases "x = c")
      case True
      with Cons.prems have "c \<notin> set cs" by simp
      from alert_loop_other [OF this rec] True
      have "las' c = s'" "of_coin c out = of_coin c (acc @ evs)" by simp_all
      with Inr r True alert_body_asset(1) [OF Inr [unfolded r]]
      show ?thesis by (simp add: of_coin_append)
    next
      case False
      with Cons.prems have "distinct cs" "c \<in> set cs" by simp_all
      from Cons.IH [OF this rec] False alert_body_asset(2) [OF Inr [unfolded r], of c]
      show ?thesis by (simp add: of_coin_append)
    qed
  qed
qed

subsection \<open>Directions of the alerts of one coin\<close>

lemma alert_body_evaluate:
  "alert_body c vs (Some p) (Some th) stored =
     (case evaluate c p vs th (get_last_state stored) of
        Inl e \<Rightarrow> Inl e | Inr (evs, s') \<Rightarrow> Inr (evs, Some s'))"
  by (simp add: alert_body_def)

lemma evaluate_directions:
  assumes "evaluate c p vs th s = Inr (evs, s')"
  shows "map direction evs \<in> {[], [Below], [Above], [Below, Above]}"
proof -
  have m: "\<not> is_malformed (lower th)" "\<not> is_malformed (upper th)"
    using evaluate_Inr [OF assms] by simp_all
  show ?thesis using assms unfolding evaluate_ok [OF m]
    by (cases "(\<exists>b. lower th = Number b \<and> py_le p b) \<and> \<not> below s";
        cases "(\<exists>b. upper th = Number b \<and> py_ge p b) \<and> \<not> above s") auto
qed

lemma alert_body_directions:
  assumes "alert_body c vs price th stored = Inr (evs, s')"
  shows "map direction evs \<in> {[], [Below], [Above], [Below, Above]}"
proof (cases price)
  case None
  with assms show ?thesis by (simp add: alert_body_absent)
next
  case (Some p)
  show ?thesis
  proof (cases th)
    case None
    with assms show ?thesis by (simp add: alert_body_no_row)
  next
    case (Some row)
    with assms \<open>price = Some p\<close>
    obtain s2 where "evaluate c p vs row (get_last_state stored) = Inr (evs, s2)"
      by (auto simp: alert_body_evaluate split: sum.splits)
    then show ?thesis by (rule evaluate_directions)
  qed
qed

lemma cycle_alert_loop:
  "cycle coins vs pd s = (s', res) \<Longrightarrow>
     alert_loop pd vs (th_map (thresholds s)) coins (last_alert_state s) [] = (last_alert_state s', res)
     \<and> history s' = history_loop pd vs coins (history s)
     \<and> thresholds s' = thresholds s"
  by (auto simp: cycle_def Let_def split: prod.splits)

lemma of_coin_Nil: "of_coin c [] = []"
  by (simp add: of_coin_def)

lemmas scenario_defs =
  cycle_def history_loop_def update_history_def append_price_def HISTORY_LEN_def th_map_def
  alert_body_def price_of_def evaluate_def crossed_below_def crossed_above_def
  below_branch_def above_branch_def cleared_def get_last_state_def first_session_def one_quote_def of_coin_def

subsection \<open>The history buffer\<close>

lemma append_price_absent: "append_price entry None = entry"
  by (simp add: append_price_def)

lemma get_hist_append_price:
  "get_hist (append_price entry (Some p)) =
     drop (length (get_hist entry @ [p]) - HISTORY_LEN) (get_hist entry @ [p])"
  by (simp add: append_price_def get_hist_def Let_def split: option.splits)

lemma update_history_same:
  "update_history pd vs h c c = append_price (h c) (price_of pd vs c)"
  by (simp add: update_history_def)

lemma update_history_other:
  "c' \<noteq> c \<Longrightarrow> update_history pd vs h c c' = h c'"
  by (simp add: update_history_def)

lemma update_history_absent:
  "price_of pd vs c = None \<Longrightarrow> update_history pd vs h c = h"
  by (simp add: update_history_def append_price_absent)

lemma history_loop_Cons:
  "history_loop pd vs (x # cs) h = history_loop pd vs cs (update_history pd vs h x)"
  by (simp add: history_loop_def)

lemma history_loop_other:
  "c \<notin> set cs \<Longrightarrow> history_loop pd vs cs h c = h c"
proof (induction cs arbitrary: h)
  case Nil
  show ?case by (simp add: history_loop_def)
next
  case (Cons x cs)
  then show ?case by (simp add: history_loop_Cons update_history_other)
qed

lemma history_loop_absent:
  "price_of pd vs c = None \<Longrightarrow> history_loop pd vs cs h c = h c"
proof (induction cs arbitrary: h)
  case Nil
  show ?case by (simp add: history_loop_def)
next
  case (Cons x cs)
  show ?case
  proof (cases "x = c")
    case True
    with Cons show ?thesis by (simp add: history_loop_Cons update_history_absent)
  next
    case False
    with Cons show ?thesis by (simp add: history_loop_Cons update_history_other)
  qed
qed

lemma history_loop_distinct:
  "distinct cs \<Longrightarrow> c \<in> set cs \<Longrightarrow>
     history_loop pd vs cs h c = append_price (h c) (price_of pd vs c)"
proof (induction cs arbitrary: h)
  case Nil
  then show ?case by simp
next
  case (Cons x cs)
  show ?case
  proof (cases "x = c")
    case True
    with Cons.prems have "c \<notin> set cs" by simp
    then show ?thesis using True
      by (simp add: history_loop_Cons history_loop_other update_history_same)
  next
    case False
    with Cons show ?thesis by (simp add: history_loop_Cons update_history_other)
  qed
qed

lemma cycle_history:
  "history (fst (cycle coins vs pd ses)) = history_loop pd vs coins (history ses)"
  by (simp add: cycle_def Let_def split: prod.splits)

lemma drop_window:
  fixes ys xs :: "'a list"
  shows "drop (length (drop (length ys - n) ys @ xs) - n) (drop (length ys - n) ys @ xs)
       = drop (length (ys @ xs) - n) (ys @ xs)"
proof (cases "length ys \<le> n")
  case True
  then show ?thesis by simp
next
  case False
  then have k: "length ys - n \<le> length ys" "length (drop (length ys - n) ys) = n" by simp_all
  have "drop (length (ys @ xs) - n) (ys @ xs) = drop (length xs + (length ys - n)) (ys @ xs)"
    using False by (simp add: add.commute)
  also have "\<dots> = drop (length xs) (drop (length ys - n) (ys @ xs))"
    by (simp only: drop_drop)
  also have "\<dots> = drop (length xs) (drop (length ys - n) ys @ xs)"
    using k(1) by simp
  finally show ?thesis using k(2) by simp
qed

lemma present_Cons:
  "present (None # prices) = present prices"
  "present (Some p # prices) = p # present prices"
  by (simp_all add: present_def)

lemma present_Nil: "present [] = []"
  by (simp add: present_def)

lemma get_hist_foldl:
  "length (get_hist entry) \<le> HISTORY_LEN \<Longrightarrow>
     get_hist (foldl append_price entry prices) =
       drop (length (get_hist entry @ present prices) - HISTORY_LEN)
            (get_hist entry @ present prices)"
proof (induction prices arbitrary: entry)
  case Nil
  then show ?case by (simp add: present_Nil)
next
  case (Cons price prices)
  show ?case
  proof (cases price)
    case None
    with Cons show ?thesis by (simp add: append_price_absent present_Cons)
  next
    case (Some p)
    let ?h = "get_hist entry @ [p]"
    have g: "get_hist (append_price entry (Some p)) = drop (length ?h - HISTORY_LEN) ?h"
      by (rule get_hist_append_price)
    then have "length (get_hist (append_price entry (Some p))) \<le> HISTORY_LEN"
      by simp
    from Cons.IH [OF this]
    have "get_hist (foldl append_price (append_price entry (Some p)) prices) =
        drop (length (drop (length ?h - HISTORY_LEN) ?h @ present prices) - HISTORY_LEN)
             (drop (length ?h - HISTORY_LEN) ?h @ present prices)"
      by (simp only: g)
    also have "\<dots> = drop (length (?h @ present prices) - HISTORY_LEN) (?h @ present prices)"
      by (rule drop_window)
    finally show ?thesis using Some by (simp add: present_Cons)
  qed
qed

lemma get_hist_None: "get_hist None = []"
  by (simp add: get_hist_def)

lemma present_Some: "present (map Some xs) = xs"
  by (induction xs) (simp_all add: present_Nil present_Cons)

subsection \<open>One coin in a run of the script\<close>

lemma cycle_local:
  assumes "distinct coins" "c \<in> set coins" "cycle coins vs pd ses = (ses', Inr out)"
  shows "alert_body c vs (price_of pd vs c) (th_map (thresholds ses) c) (last_alert_state ses c)
           = Inr (of_coin c out, last_alert_state ses' c)"
proof -
  from cycle_alert_loop [OF assms(3)]
  have loop: "alert_loop pd vs (th_map (thresholds ses)) coins (last_alert_state ses) []
      = (last_alert_state ses', Inr out)" by simp
  from alert_loop_local [OF assms(1,2) loop] show ?thesis
    by (auto simp: of_coin_Nil)
qed

lemma cycle_thresholds: "cycle coins vs pd ses = (ses', res) \<Longrightarrow> thresholds ses' = thresholds ses"
  using cycle_alert_loop by blast

lemma run_thresholds:
  "run coins vs ses pds = (ses', res) \<Longrightarrow> thresholds ses' = thresholds ses"
proof (induction pds arbitrary: ses ses' res)
  case Nil
  then show ?case by simp
next
  case (Cons pd pds)
  obtain s1 r1 where c: "cycle coins vs pd ses = (s1, r1)" by (cases "cycle coins vs pd ses")
  show ?case
  proof (cases r1)
    case (Inl e)
    with Cons.prems c have "ses' = s1" by simp
    with cycle_thresholds [OF c] show ?thesis by simp
  next
    case (Inr out)
    obtain s2 r2 where r: "run coins vs s1 pds = (s2, r2)" by (cases "run coins vs s1 pds")
    with Cons.prems c Inr have "ses' = s2" by (auto split: sum.splits)
    with Cons.IH [OF r] cycle_thresholds [OF c] show ?thesis by simp
  qed
qed

lemma run_Cons_Inr:
  assumes "run coins vs ses (pd # pds) = (ses', Inr outs)"
  obtains s1 out outs' where "cycle coins vs pd ses = (s1, Inr out)"
    and "run coins vs s1 pds = (ses', Inr outs')" and "outs = out # outs'"
  using assms by (auto split: prod.splits sum.splits)

lemma run_feed:
  "distinct coins \<Longrightarrow> c \<in> set coins \<Longrightarrow> run coins vs ses pds = (ses', Inr outs) \<Longrightarrow>
     feed c vs (th_map (thresholds ses) c) (last_alert_state ses c)
          (map (\<lambda>pd. price_of pd vs c) pds)
       = Inr (map (of_coin c) outs, last_alert_state ses' c)"
proof (induction pds arbitrary: ses outs)
  case Nil
  then show ?case by auto
next
  case (Cons pd pds)
  from Cons.prems(3) obtain s1 out outs' where
    c: "cycle coins vs pd ses = (s1, Inr out)" and
    r: "run coins vs s1 pds = (ses', Inr outs')" and o: "outs = out # outs'"
    by (rule run_Cons_Inr)
  have t: "thresholds s1 = thresholds ses" using cycle_thresholds [OF c] .
  from cycle_local [OF Cons.prems(1,2) c] Cons.IH [OF Cons.prems(1,2) r]
  show ?case by (simp add: o t)
qed

lemma feed_append:
  "feed c vs th stored (xs @ ys) =
     (case feed c vs th stored xs of
        Inl e \<Rightarrow> Inl e
      | Inr (e1, s1) \<Rightarrow>
          (case feed c vs th s1 ys of
             Inl e \<Rightarrow> Inl e
           | Inr (e2, s2) \<Rightarrow> Inr (e1 @ e2, s2)))"
  by (induction xs arbitrary: stored) (auto split: sum.splits prod.splits)

subsection \<open>Runs of prices on one side of a bound\<close>

lemma of_direction_simps:
  "of_direction d [] = []"
  "of_direction Below (below_alert c p vs lo # evs) = below_alert c p vs lo # of_direction Below evs"
  "of_direction Above (below_alert c p vs lo # evs) = of_direction Above evs"
  "of_direction Above (above_alert c p vs up # evs) = above_alert c p vs up # of_direction Above evs"
  "of_direction Below (above_alert c p vs up # evs) = of_direction Below evs"
  by (simp_all add: of_direction_def)

lemma of_direction_append:
  "of_direction d (xs @ ys) = of_direction d xs @ of_direction d ys"
  by (simp add: of_direction_def)

lemma alert_body_below:
  assumes "lower th = Number (Fin lo)" "\<not> is_malformed (upper th)"
  shows "\<exists>evs s'. alert_body c vs (Some p) (Some th) stored = Inr (evs, Some s')
           \<and> of_direction Below evs =
               (if p \<le> lo \<and> \<not> below (get_last_state stored)
                then [below_alert c p vs (lower th)] else [])
           \<and> below s' = (p \<le> lo)"
proof -
  have m: "\<not> is_malformed (lower th)" using assms(1) by simp
  show ?thesis
    unfolding alert_body_evaluate evaluate_ok [OF m assms(2)]
    by (simp add: assms(1) of_direction_simps of_direction_append)
qed

lemma alert_body_above:
  assumes "upper th = Number (Fin hi)" "\<not> is_malformed (lower th)"
  shows "\<exists>evs s'. alert_body c vs (Some p) (Some th) stored = Inr (evs, Some s')
           \<and> of_direction Above evs =
               (if hi \<le> p \<and> \<not> above (get_last_state stored)
                then [above_alert c p vs (upper th)] else [])
           \<and> above s' = (hi \<le> p)"
proof -
  have m: "\<not> is_malformed (upper th)" using assms(1) by simp
  show ?thesis
    unfolding alert_body_evaluate evaluate_ok [OF assms(2) m]
    by (simp add: assms(1) of_direction_simps of_direction_append)
qed

lemma get_last_state_Some: "get_last_state (Some s) = s"
  by (simp add: get_last_state_def)

lemma feed_Cons_Some:
  assumes "alert_body c vs price th stored = Inr (evs, s1)"
    and "feed c vs th s1 prices = Inr (evss, st)"
  shows "feed c vs th stored (price # prices) = Inr (evs # evss, st)"
  using assms by simp

lemma feed_below_latched:
  assumes "lower th = Number (Fin lo)" "\<not> is_malformed (upper th)"
  shows "below (get_last_state stored) \<Longrightarrow> \<forall>p\<in>set ps. p \<le> lo \<Longrightarrow>
     \<exists>evss st. feed c vs (Some th) stored (map Some ps) = Inr (evss, st)
        \<and> map (of_direction Below) evss = replicate (length ps) []
        \<and> below (get_last_state st)"
proof (induction ps arbitrary: stored)
  case Nil
  then show ?case by simp
next
  case (Cons p ps)
  from alert_body_below [OF assms, of c vs p stored] Cons.prems
  obtain evs s' where b: "alert_body c vs (Some p) (Some th) stored = Inr (evs, Some s')"
    and e: "of_direction Below evs = []" and s: "below s'" by auto
  from Cons.IH [of "Some s'"] s Cons.prems(2)
  obtain evss st where f: "feed c vs (Some th) (Some s') (map Some ps) = Inr (evss, st)"
    and es: "map (of_direction Below) evss = replicate (length ps) []"
    and st: "below (get_last_state st)"
    by (auto simp: get_last_state_Some)
  from feed_Cons_Some [OF b f] e es st show ?case by simp
qed

lemma feed_below_crossing:
  assumes "lower th = Number (Fin lo)" "\<not> is_malformed (upper th)"
    and "\<not> below (get_last_state stored)" "ps \<noteq> []" "\<forall>p\<in>set ps. p \<le> lo"
  shows "\<exists>evss st. feed c vs (Some th) stored (map Some ps) = Inr (evss, st)
        \<and> map (of_direction Below) evss
            = [below_alert c (hd ps) vs (lower th)] # replicate (length ps - 1) []
        \<and> below (get_last_state st)"
proof -
  from assms(4) obtain p ps' where ps: "ps = p # ps'" by (cases ps) auto
  from alert_body_below [OF assms(1,2), of c vs p stored] assms(3,5) ps
  obtain evs s' where b: "alert_body c vs (Some p) (Some th) stored = Inr (evs, Some s')"
    and e: "of_direction Below evs = [below_alert c p vs (lower th)]" and s: "below s'" by auto
  from feed_below_latched [OF assms(1,2), of "Some s'" ps' c vs] s assms(5) ps
  obtain evss st where f: "feed c vs (Some th) (Some s') (map Some ps') = Inr (evss, st)"
    and es: "map (of_direction Below) evss = replicate (length ps') []"
    and st: "below (get_last_state st)"
    by (auto simp: get_last_state_Some)
  from feed_Cons_Some [OF b f] e es st ps show ?thesis by simp
qed

lemma feed_below_clear:
  assumes "lower th = Number (Fin lo)" "\<not> is_malformed (upper th)"
  shows "\<forall>q\<in>set qs. lo < q \<Longrightarrow>
     \<exists>evss st. feed c vs (Some th) stored (map Some qs) = Inr (evss, st)
        \<and> map (of_direction Below) evss = replicate (length qs) []
        \<and> (qs \<noteq> [] \<longrightarrow> \<not> below (get_last_state st))"
proof (induction qs arbitrary: stored)
  case Nil
  then show ?case by simp
next
  case (Cons q qs)
  from alert_body_below [OF assms, of c vs q stored] Cons.prems
  obtain evs s' where b: "alert_body c vs (Some q) (Some th) stored = Inr (evs, Some s')"
    and e: "of_direction Below evs = []" and s: "\<not> below s'" by auto
  from Cons.IH [of "Some s'"] Cons.prems
  obtain evss st where f: "feed c vs (Some th) (Some s') (map Some qs) = Inr (evss, st)"
    and es: "map (of_direction Below) evss = replicate (length qs) []"
    and st: "qs \<noteq> [] \<longrightarrow> \<not> below (get_last_state st)"
    by auto
  have "\<not> below (get_last_state st)"
  proof (cases qs)
    case Nil
    with f s show ?thesis by (auto simp: get_last_state_Some)
  next
    case (Cons a list)
    with st show ?thesis by simp
  qed
  with feed_Cons_Some [OF b f] e es show ?case by simp
qed

lemma feed_append_Inr:
  assumes "feed c vs th stored xs = Inr (e1, s1)" "feed c vs th s1 ys = Inr (e2, s2)"
  shows "feed c vs th stored (xs @ ys) = Inr (e1 @ e2, s2)"
  using assms by (simp add: feed_append)

lemma below_edge_triggered:
  assumes "lower th = Number (Fin lo)" "\<not> is_malformed (upper th)"
    and "\<not> below (get_last_state stored)"
    and "run1 \<noteq> []" "\<forall>p\<in>set run1. p \<le> lo"
    and "gap \<noteq> []" "\<forall>q\<in>set gap. lo < q"
    and "run2 \<noteq> []" "\<forall>p\<in>set run2. p \<le> lo"
  shows "\<exists>evss st. feed c vs (Some th) stored (map Some (run1 @ gap @ run2)) = Inr (evss, st)
     \<and> map (of_direction Below) evss
         = ([below_alert c (hd run1) vs (lower th)] # replicate (length run1 - 1) [])
           @ replicate (length gap) []
           @ ([below_alert c (hd run2) vs (lower th)] # replicate (length run2 - 1) [])"
proof -
  from feed_below_crossing [OF assms(1,2,3,4,5), of c vs]
  obtain e1 s1 where f1: "feed c vs (Some th) stored (map Some run1) = Inr (e1, s1)"
    and d1: "map (of_direction Below) e1
        = [below_alert c (hd run1) vs (lower th)] # replicate (length run1 - 1) []"
    by auto
  from feed_below_clear [OF assms(1,2) assms(7), of c vs s1] assms(6)
  obtain e2 s2 where f2: "feed c vs (Some th) s1 (map Some gap) = Inr (e2, s2)"
    and d2: "map (of_direction Below) e2 = replicate (length gap) []"
    and c2: "\<not> below (get_last_state s2)"
    by auto
  from feed_below_crossing [OF assms(1,2) c2 assms(8,9), of c vs]
  obtain e3 s3 where f3: "feed c vs (Some th) s2 (map Some run2) = Inr (e3, s3)"
    and d3: "map (of_direction Below) e3
        = [below_alert c (hd run2) vs (lower th)] # replicate (length run2 - 1) []"
    by auto
  from feed_append_Inr [OF f1 feed_append_Inr [OF f2 f3]]
  have "feed c vs (Some th) stored (map Some (run1 @ gap @ run2)) = Inr (e1 @ e2 @ e3, s3)"
    by simp
  moreover have "map (of_direction Below) (e1 @ e2 @ e3)
      = ([below_alert c (hd run1) vs (lower th)] # replicate (length run1 - 1) [])
           @ replicate (length gap) []
           @ ([below_alert c (hd run2) vs (lower th)] # replicate (length run2 - 1) [])"
    by (simp only: map_append d1 d2 d3)
  ultimately show ?thesis by blast
qed

lemma feed_above_latched:
  assumes "upper th = Number (Fin hi)" "\<not> is_malformed (lower th)"
  shows "above (get_last_state stored) \<Longrightarrow> \<forall>p\<in>set ps. hi \<le> p \<Longrightarrow>
     \<exists>evss st. feed c vs (Some th) stored (map Some ps) = Inr (evss, st)
        \<and> map (of_direction Above) evss = replicate (length ps) []
        \<and> above (get_last_state st)"
proof (induction ps arbitrary: stored)
  case Nil
  then show ?case by simp
next
  case (Cons p ps)
  from alert_body_above [OF assms, of c vs p stored] Cons.prems
  obtain evs s' where b: "alert_body c vs (Some p) (Some th) stored = Inr (evs, Some s')"
    and e: "of_direction Above evs = []" and s: "above s'" by auto
  from Cons.IH [of "Some s'"] s Cons.prems(2)
  obtain evss st where f: "feed c vs (Some th) (Some s') (map Some ps) = Inr (evss, st)"
    and es: "map (of_direction Above) evss = replicate (length ps) []"
    and st: "above (get_last_state st)"
    by (auto simp: get_last_state_Some)
  from feed_Cons_Some [OF b f] e es st show ?case by simp
qed

lemma feed_above_crossing:
  assumes "upper th = Number (Fin hi)" "\<not> is_malformed (lower th)"
    and "\<not> above (get_last_state stored)" "ps \<noteq> []" "\<forall>p\<in>set ps. hi \<le> p"
  shows "\<exists>evss st. feed c vs (Some th) stored (map Some ps) = Inr (evss, st)
        \<and> map (of_direction Above) evss
            = [above_alert c (hd ps) vs (upper th)] # replicate (length ps - 1) []
        \<and> above (get_last_state st)"
proof -
  from assms(4) obtain p ps' where ps: "ps = p # ps'" by (cases ps) auto
  from alert_body_above [OF assms(1,2), of c vs p stored] assms(3,5) ps
  obtain evs s' where b: "alert_body c vs (Some p) (Some th) stored = Inr (evs, Some s')"
    and e: "of_direction Above evs = [above_alert c p vs (upper th)]" and s: "above s'" by auto
  from feed_above_latched [OF assms(1,2), of "Some s'" ps' c vs] s assms(5) ps
  obtain evss st where f: "feed c vs (Some th) (Some s') (map Some ps') = Inr (evss, st)"
    and es: "map (of_direction Above) evss = replicate (length ps') []"
    and st: "above (get_last_state st)"
    by (auto simp: get_last_state_Some)
  from feed_Cons_Some [OF b f] e es st ps show ?thesis by simp
qed

lemma feed_above_clear:
  assumes "upper th = Number (Fin hi)" "\<not> is_malformed (lower th)"
  shows "\<forall>q\<in>set qs. q < hi \<Longrightarrow>
     \<exists>evss st. feed c vs (Some th) stored (map Some qs) = Inr (evss, st)
        \<and> map (of_direction Above) evss = replicate (length qs) []
        \<and> (qs \<noteq> [] \<longrightarrow> \<not> above (get_last_state st))"
proof (induction qs arbitrary: stored)
  case Nil
  then show ?case by simp
next
  case (Cons q qs)
  from alert_body_above [OF assms, of c vs q stored] Cons.prems
  obtain evs s' where b: "alert_body c vs (Some q) (Some th) stored = Inr (evs, Some s')"
    and e: "of_direction Above evs = []" and s: "\<not> above s'" by auto
  from Cons.IH [of "Some s'"] Cons.prems
  obtain evss st where f: "feed c vs (Some th) (Some s') (map Some qs) = Inr (evss, st)"
    and es: "map (of_direction Above) evss = replicate (length qs) []"
    and st: "qs \<noteq> [] \<longrightarrow> \<not> above (get_last_state st)"
    by auto
  have "\<not> above (get_last_state st)"
  proof (cases qs)
    case Nil
    with f s show ?thesis by (auto simp: get_last_state_Some)
  next
    case (Cons a list)
    with st show ?thesis by simp
  qed
  with feed_Cons_Some [OF b f] e es show ?case by simp
qed

lemma above_edge_triggered:
  assumes "upper th = Number (Fin hi)" "\<not> is_malformed (lower th)"
    and "\<not> above (get_last_state stored)"
    and "run1 \<noteq> []" "\<forall>p\<in>set run1. hi \<le> p"
    and "gap \<noteq> []" "\<forall>q\<in>set gap. q < hi"
    and "run2 \<noteq> []" "\<forall>p\<in>set run2. hi \<le> p"
  shows "\<exists>evss st. feed c vs (Some th) stored (map Some (run1 @ gap @ run2)) = Inr (evss, st)
     \<and> map (of_direction Above) evss
         = ([above_alert c (hd run1) vs (upper th)] # replicate (length run1 - 1) [])
           @ replicate (length gap) []
           @ ([above_alert c (hd run2) vs (upper th)] # replicate (length run2 - 1) [])"
proof -
  from feed_above_crossing [OF assms(1,2,3,4,5), of c vs]
  obtain e1 s1 where f1: "feed c vs (Some th) stored (map Some run1) = Inr (e1, s1)"
    and d1: "map (of_direction Above) e1
        = [above_alert c (hd run1) vs (upper th)] # replicate (length run1 - 1) []"
    by auto
  from feed_above_clear [OF assms(1,2) assms(7), of c vs s1] assms(6)
  obtain e2 s2 where f2: "feed c vs (Some th) s1 (map Some gap) = Inr (e2, s2)"
    and d2: "map (of_direction Above) e2 = replicate (length gap) []"
    and c2: "\<not> above (get_last_state s2)"
    by auto
  from feed_above_crossing [OF assms(1,2) c2 assms(8,9), of c vs]
  obtain e3 s3 where f3: "feed c vs (Some th) s2 (map Some run2) = Inr (e3, s3)"
    and d3: "map (of_direction Above) e3
        = [above_alert c (hd run2) vs (upper th)] # replicate (length run2 - 1) []"
    by auto
  from feed_append_Inr [OF f1 feed_append_Inr [OF f2 f3]]
  have "feed c vs (Some th) stored (map Some (run1 @ gap @ run2)) = Inr (e1 @ e2 @ e3, s3)"
    by simp
  moreover have "map (of_direction Above) (e1 @ e2 @ e3)
      = ([above_alert c (hd run1) vs (upper th)] # replicate (length run1 - 1) [])
           @ replicate (length gap) []
           @ ([above_alert c (hd run2) vs (upper th)] # replicate (length run2 - 1) [])"
    by (simp only: map_append d1 d2 d3)
  ultimately show ?thesis by blast
qed

subsection \<open>Cycles without a quote, rows without bounds\<close>

lemma alert_body_no_bounds:
  assumes "lower th = PyNone" "upper th = PyNone"
  shows "\<exists>s'. alert_body c vs price (Some th) stored = Inr ([], s')"
proof (cases price)
  case None
  then show ?thesis by (simp add: alert_body_absent)
next
  case (Some p)
  have m: "\<not> is_malformed (lower th)" "\<not> is_malformed (upper th)"
    using assms by simp_all
  show ?thesis
    unfolding Some alert_body_evaluate evaluate_ok [OF m] by (simp add: assms)
qed

lemma alert_loop_quiet:
  assumes q: "\<And>stored. \<exists>s'. alert_body c vs (price_of pd vs c) (thm c) stored = Inr ([], s')"
  shows "alert_loop pd vs thm cs las acc = (las', Inr out) \<Longrightarrow> of_coin c out = of_coin c acc"
proof (induction cs arbitrary: las acc)
  case Nil
  then show ?case by simp
next
  case (Cons x cs)
  show ?case
  proof (cases "alert_body x vs (price_of pd vs x) (thm x) (las x)")
    case (Inl e)
    with Cons.prems show ?thesis by simp
  next
    case (Inr r)
    obtain evs s' where r: "r = (evs, s')" by (cases r)
    from Cons.prems Inr r
    have rec: "alert_loop pd vs thm cs (las(x := s')) (acc @ evs) = (las', Inr out)" by simp
    have "of_coin c evs = []"
    proof (cases "x = c")
      case True
      with q [of "las c"] Inr r show ?thesis by (auto simp: of_coin_Nil)
    next
      case False
      with alert_body_asset(2) [OF Inr [unfolded r], of c] show ?thesis by simp
    qed
    with Cons.IH [OF rec] show ?thesis by (simp add: of_coin_append)
  qed
qed

lemma cycle_quiet:
  assumes "th_map (thresholds ses) c = Some th" "lower th = PyNone" "upper th = PyNone"
    and "cycle coins vs pd ses = (ses', Inr out)"
  shows "of_coin c out = []"
proof -
  from cycle_alert_loop [OF assms(4)]
  have loop: "alert_loop pd vs (th_map (thresholds ses)) coins (last_alert_state ses) []
      = (last_alert_state ses', Inr out)" by simp
  have "\<And>stored. \<exists>s'. alert_body c vs (price_of pd vs c) (th_map (thresholds ses) c) stored
      = Inr ([], s')"
    unfolding assms(1) using alert_body_no_bounds [OF assms(2,3)] by simp
  from alert_loop_quiet [OF this loop] show ?thesis by (simp add: of_coin_Nil)
qed

lemma run_quiet:
  assumes "lower th = PyNone" "upper th = PyNone"
  shows "th_map (thresholds ses) c = Some th \<Longrightarrow> run coins vs ses pds = (ses', Inr outs) \<Longrightarrow>
     map (of_coin c) outs = replicate (length pds) []"
proof (induction pds arbitrary: ses outs)
  case Nil
  then show ?case by auto
next
  case (Cons pd pds)
  from Cons.prems(2) obtain s1 out outs' where
    c: "cycle coins vs pd ses = (s1, Inr out)" and
    r: "run coins vs s1 pds = (ses', Inr outs')" and o: "outs = out # outs'"
    by (rule run_Cons_Inr)
  have t: "th_map (thresholds s1) c = Some th"
    using cycle_thresholds [OF c] Cons.prems(1) by simp
  from cycle_quiet [OF Cons.prems(1) assms c] Cons.IH [OF t r]
  show ?case by (simp add: o)
qed

lemma feed_no_bounds:
  assumes "lower th = PyNone" "upper th = PyNone"
  shows "\<exists>st. feed c vs (Some th) stored prices = Inr (replicate (length prices) [], st)"
proof (induction prices arbitrary: stored)
  case Nil
  show ?case by simp
next
  case (Cons price prices)
  from alert_body_no_bounds [OF assms, of c vs price stored]
  obtain s' where b: "alert_body c vs price (Some th) stored = Inr ([], s')" by blast
  from Cons [of s'] obtain st where
    f: "feed c vs (Some th) s' prices = Inr (replicate (length prices) [], st)" by blast
  from feed_Cons_Some [OF b f] show ?case by simp
qed

lemma evaluate_no_bounds:
  assumes "lower th = PyNone" "upper th = PyNone"
  shows "evaluate c p vs th s = Inr ([], cleared)"
proof -
  have m: "\<not> is_malformed (lower th)" "\<not> is_malformed (upper th)"
    using assms by simp_all
  show ?thesis unfolding evaluate_ok [OF m] by (simp add: assms cleared_def)
qed

lemma cycle_absent:
  assumes "price_of pd vs c = None" "cycle coins vs pd ses = (ses', res)"
  shows "history ses' c = history ses c"
    and "last_alert_state ses' c = last_alert_state ses c"
    and "res = Inr out \<Longrightarrow> of_coin c out = []"
proof -
  from cycle_alert_loop [OF assms(2)]
  have loop: "alert_loop pd vs (th_map (thresholds ses)) coins (last_alert_state ses) []
      = (last_alert_state ses', res)"
    and h: "history ses' = history_loop pd vs coins (history ses)" by simp_all
  show "history ses' c = history ses c"
    by (simp add: h history_loop_absent [OF assms(1)])
  from alert_loop_skip [OF _ loop, of c] assms(1)
  show "last_alert_state ses' c = last_alert_state ses c" by simp
  from alert_loop_skip [OF _ loop, of c] assms(1)
  show "res = Inr out \<Longrightarrow> of_coin c out = []" by (simp add: of_coin_Nil)
qed

lemma price_of_empty: "price_of Map.empty vs c = None"
  by (simp add: price_of_def)

lemma history_loop_empty: "history_loop Map.empty vs coins h = h"
proof
  fix c show "history_loop Map.empty vs coins h c = h c"
    by (rule history_loop_absent) (rule price_of_empty)
qed

lemma alert_loop_empty:
  "alert_loop Map.empty vs thm cs las acc = (las, Inr acc)"
  by (induction cs) (simp_all add: price_of_empty alert_body_absent)

lemma cycle_empty: "cycle coins vs Map.empty ses = (ses, Inr [])"
  by (simp add: cycle_def history_loop_empty alert_loop_empty)

lemma run_length: "run coins vs ses pds = (ses', Inr outs) \<Longrightarrow> length outs = length pds"
proof (induction pds arbitrary: ses outs)
  case Nil
  then show ?case by auto
next
  case (Cons pd pds)
  from Cons.prems obtain s1 out outs' where
    "run coins vs s1 pds = (ses', Inr outs')" and "outs = out # outs'"
    by (rule run_Cons_Inr)
  with Cons.IH show ?case by simp
qed

lemma feed_length: "feed c vs th stored prices = Inr (evss, st) \<Longrightarrow> length evss = length prices"
  by (induction prices arbitrary: stored evss) (auto split: sum.splits prod.splits)

lemma run_append:
  "run coins vs ses (xs @ ys) =
     (case run coins vs ses xs of
        (s1, Inl e) \<Rightarrow> (s1, Inl e)
      | (s1, Inr o1) \<Rightarrow>
          (case run coins vs s1 ys of
             (s2, Inl e) \<Rightarrow> (s2, Inl e)
           | (s2, Inr o2) \<Rightarrow> (s2, Inr (o1 @ o2))))"
  by (induction xs arbitrary: ses) (auto split: sum.splits prod.splits)

lemma run_failed_fetch:
  "run coins vs ses (before @ Map.empty # after) =
     (case run coins vs ses (before @ after) of
        (s, Inl e) \<Rightarrow> (s, Inl e)
      | (s, Inr outs) \<Rightarrow>
          (s, Inr (take (length before) outs @ [] # drop (length before) outs)))"
proof (cases "run coins vs ses before")
  case (Pair s1 r1)
  show ?thesis
  proof (cases r1)
    case (Inl e)
    with Pair show ?thesis by (simp add: run_append)
  next
    case (Inr o1)
    with Pair have l: "length o1 = length before" using run_length by blast
    obtain s2 r2 where a: "run coins vs s1 after = (s2, r2)" by (cases "run coins vs s1 after")
    show ?thesis
      using Pair Inr a l by (cases r2) (simp_all add: run_append cycle_empty)
  qed
qed

lemma feed_failed_fetch:
  "feed c vs th stored (before @ None # after) =
     (case feed c vs th stored (before @ after) of
        Inl e \<Rightarrow> Inl e
      | Inr (evss, st) \<Rightarrow>
          Inr (take (length before) evss @ [] # drop (length before) evss, st))"
proof (cases "feed c vs th stored before")
  case (Inl e)
  then show ?thesis by (simp add: feed_append)
next
  case (Inr r1)
  obtain e1 s1 where r1: "r1 = (e1, s1)" by (cases r1)
  with Inr have l: "length e1 = length before" using feed_length by blast
  show ?thesis
    using Inr r1 l
    by (cases "feed c vs th s1 after") (auto simp: feed_append alert_body_absent)
qed

subsection \<open>A cell that the conversion rejects\<close>

lemma alert_body_raises:
  "is_malformed (lower th) \<or> is_malformed (upper th) \<Longrightarrow>
     alert_body c vs (Some p) (Some th) stored = Inl ValueError"
  by (simp add: alert_body_evaluate evaluate_raises)

lemma alert_loop_raising_coin:
  assumes r: "\<And>stored. alert_body c vs (price_of pd vs c) (thm c) stored = Inl e0"
  shows "alert_loop pd vs thm cs las acc = (las', res) \<Longrightarrow> las' c = las c"
proof (induction cs arbitrary: las acc)
  case Nil
  then show ?case by simp
next
  case (Cons x cs)
  show ?case
  proof (cases "alert_body x vs (price_of pd vs x) (thm x) (las x)")
    case (Inl e)
    with Cons.prems show ?thesis by simp
  next
    case (Inr v)
    obtain evs s' where v: "v = (evs, s')" by (cases v)
    from Inr r [of "las x"] have "x \<noteq> c" by auto
    from Cons.prems Inr v
    have rec: "alert_loop pd vs thm cs (las(x := s')) (acc @ evs) = (las', res)" by simp
    from Cons.IH [OF rec] \<open>x \<noteq> c\<close> show ?thesis by simp
  qed
qed

lemma cycle_raising_coin:
  assumes "price_of pd vs c = Some p" "th_map (thresholds ses) c = Some th"
    and "is_malformed (lower th) \<or> is_malformed (upper th)"
    and "cycle coins vs pd ses = (ses', res)"
  shows "last_alert_state ses' c = last_alert_state ses c"
proof -
  from cycle_alert_loop [OF assms(4)]
  have loop: "alert_loop pd vs (th_map (thresholds ses)) coins (last_alert_state ses) []
      = (last_alert_state ses', res)" by simp
  have "\<And>stored. alert_body c vs (price_of pd vs c) (th_map (thresholds ses) c) stored
      = Inl ValueError"
    unfolding assms(1,2) using alert_body_raises [OF assms(3)] by simp
  from alert_loop_raising_coin [OF this loop] show ?thesis .
qed

lemma evaluate_finite_bounds:
  assumes "evaluate c p vs th s = Inr (evs, s')"
  shows "lower th = Number (Fin lo) \<Longrightarrow> below s' = (p \<le> lo)"
    and "upper th = Number (Fin hi) \<Longrightarrow> above s' = (hi \<le> p)"
proof -
  have m: "\<not> is_malformed (lower th)" "\<not> is_malformed (upper th)"
    using evaluate_Inr [OF assms] by simp_all
  show "lower th = Number (Fin lo) \<Longrightarrow> below s' = (p \<le> lo)"
    using assms unfolding evaluate_ok [OF m] by auto
  show "upper th = Number (Fin hi) \<Longrightarrow> above s' = (hi \<le> p)"
    using assms unfolding evaluate_ok [OF m] by auto
qed

section \<open>The claims\<close>

text \<open>
  C1, as the specification states it: for every coin with a lower bound, prices that
  stay \<^verbatim>\<open><=\<close> the bound give exactly one alert for it, on the first such cycle. The
  statement covers every row with a lower bound, whatever its upper cell. Line 256
  converts the upper cell before line 261 appends the alert for the lower bound: with
  the lower bound 100, the upper cell \<^verbatim>\<open>"ten"\<close>, a clear latch and the price 100, the
  evaluation raises \<^verbatim>\<open>ValueError\<close>, and neither the cycles of the coin nor the run of
  the script give any alert.
\<close>

theorem edge_trigger_malformed_cell:
  "(100::real) \<le> 100
   \<and> \<not> below (get_last_state None)
   \<and> evaluate ''bitcoin'' 100 ''usd''
        \<lparr>coin = ''bitcoin'', lower = Number (Fin 100), upper = Malformed ''ten''\<rparr> cleared
      = Inl ValueError
   \<and> feed ''bitcoin'' ''usd''
        (Some \<lparr>coin = ''bitcoin'', lower = Number (Fin 100), upper = Malformed ''ten''\<rparr>) None
        [Some 100] = Inl ValueError
   \<and> run [''bitcoin''] ''usd''
        (first_session [\<lparr>coin = ''bitcoin'', lower = Number (Fin 100), upper = Malformed ''ten''\<rparr>])
        [one_quote ''bitcoin'' ''usd'' 100]
      = (\<lparr>history = [''bitcoin'' \<mapsto> [100]], last_alert_state = Map.empty,
          thresholds = [\<lparr>coin = ''bitcoin'', lower = Number (Fin 100), upper = Malformed ''ten''\<rparr>]\<rparr>,
         Inl ValueError)"
  by (simp add: scenario_defs)

text \<open>
  C1, as the code has it: alerts are edge-triggered for every row whose other cell is
  absent or a value that \<^verbatim>\<open>float\<close> accepts. Take a coin whose row has a lower bound
  \<open>lo\<close> and such an upper cell, and whose latch \<open>below\<close> is clear, and feed
  it, one present price per cycle: first prices that are all \<^verbatim>\<open><= lo\<close>, then prices that
  are all \<^verbatim>\<open>> lo\<close>, then again prices that are all \<^verbatim>\<open><= lo\<close>. Every cycle returns, and
  the alerts for the lower bound are exactly one in the first cycle of the first run
  of prices, none in the rest of that run, none while the price is above the bound, one
  in the first cycle of the second run of prices and none after. The same holds for an
  upper bound \<open>hi\<close>, with \<^verbatim>\<open>>= hi\<close> and \<^verbatim>\<open>< hi\<close>. The cycles of one coin are what successive
  runs of the script over distinct coins do for that coin.
\<close>

theorem edge_triggered_alerts:
  "(lower th = Number (Fin lo) \<and> \<not> is_malformed (upper th)
      \<and> \<not> below (get_last_state stored)
      \<and> run1 \<noteq> [] \<and> (\<forall>p\<in>set run1. p \<le> lo)
      \<and> gap \<noteq> [] \<and> (\<forall>q\<in>set gap. lo < q)
      \<and> run2 \<noteq> [] \<and> (\<forall>p\<in>set run2. p \<le> lo) \<longrightarrow>
      (\<exists>evss st. feed c vs (Some th) stored (map Some (run1 @ gap @ run2)) = Inr (evss, st)
         \<and> map (of_direction Below) evss
             = ([below_alert c (hd run1) vs (lower th)] # replicate (length run1 - 1) [])
               @ replicate (length gap) []
               @ ([below_alert c (hd run2) vs (lower th)] # replicate (length run2 - 1) [])))
   \<and> (upper th2 = Number (Fin hi) \<and> \<not> is_malformed (lower th2)
      \<and> \<not> above (get_last_state stored2)
      \<and> rise1 \<noteq> [] \<and> (\<forall>p\<in>set rise1. hi \<le> p)
      \<and> dip \<noteq> [] \<and> (\<forall>q\<in>set dip. q < hi)
      \<and> rise2 \<noteq> [] \<and> (\<forall>p\<in>set rise2. hi \<le> p) \<longrightarrow>
      (\<exists>evss st. feed c vs (Some th2) stored2 (map Some (rise1 @ dip @ rise2)) = Inr (evss, st)
         \<and> map (of_direction Above) evss
             = ([above_alert c (hd rise1) vs (upper th2)] # replicate (length rise1 - 1) [])
               @ replicate (length dip) []
               @ ([above_alert c (hd rise2) vs (upper th2)] # replicate (length rise2 - 1) [])))
   \<and> (distinct coins \<and> c \<in> set coins \<and> run coins vs ses pds = (ses', Inr outs) \<longrightarrow>
        feed c vs (th_map (thresholds ses) c) (last_alert_state ses c)
             (map (\<lambda>pd. price_of pd vs c) pds)
          = Inr (map (of_coin c) outs, last_alert_state ses' c))"
proof (intro conjI impI)
  assume "lower th = Number (Fin lo) \<and> \<not> is_malformed (upper th)
      \<and> \<not> below (get_last_state stored)
      \<and> run1 \<noteq> [] \<and> (\<forall>p\<in>set run1. p \<le> lo)
      \<and> gap \<noteq> [] \<and> (\<forall>q\<in>set gap. lo < q)
      \<and> run2 \<noteq> [] \<and> (\<forall>p\<in>set run2. p \<le> lo)"
  then show "\<exists>evss st. feed c vs (Some th) stored (map Some (run1 @ gap @ run2)) = Inr (evss, st)
         \<and> map (of_direction Below) evss
             = ([below_alert c (hd run1) vs (lower th)] # replicate (length run1 - 1) [])
               @ replicate (length gap) []
               @ ([below_alert c (hd run2) vs (lower th)] # replicate (length run2 - 1) [])"
    using below_edge_triggered [of th lo stored run1 gap run2 c vs] by blast
next
  assume "upper th2 = Number (Fin hi) \<and> \<not> is_malformed (lower th2)
      \<and> \<not> above (get_last_state stored2)
      \<and> rise1 \<noteq> [] \<and> (\<forall>p\<in>set rise1. hi \<le> p)
      \<and> dip \<noteq> [] \<and> (\<forall>q\<in>set dip. q < hi)
      \<and> rise2 \<noteq> [] \<and> (\<forall>p\<in>set rise2. hi \<le> p)"
  then show "\<exists>evss st. feed c vs (Some th2) stored2 (map Some (rise1 @ dip @ rise2)) = Inr (evss, st)
         \<and> map (of_direction Above) evss
             = ([above_alert c (hd rise1) vs (upper th2)] # replicate (length rise1 - 1) [])
               @ replicate (length dip) []
               @ ([above_alert c (hd rise2) vs (upper th2)] # replicate (length rise2 - 1) [])"
    using above_edge_triggered [of th2 hi stored2 rise1 dip rise2 c vs] by blast
next
  assume "distinct coins \<and> c \<in> set coins \<and> run coins vs ses pds = (ses', Inr outs)"
  then show "feed c vs (th_map (thresholds ses) c) (last_alert_state ses c)
             (map (\<lambda>pd. price_of pd vs c) pds)
          = Inr (map (of_coin c) outs, last_alert_state ses' c)"
    using run_feed by blast
qed

theorem edge_triggered_alerts_witness:
  "feed ''bitcoin'' ''usd''
      (Some \<lparr>coin = ''bitcoin'', lower = Number (Fin 100), upper = Number (Fin 200)\<rparr>) None
      (map Some ([100, 95] @ [101] @ [99, 98]))
     = Inr ([[below_alert ''bitcoin'' 100 ''usd'' (Number (Fin 100))], [], [],
             [below_alert ''bitcoin'' 99 ''usd'' (Number (Fin 100))], []],
            Some \<lparr>above = False, below = True\<rparr>)
   \<and> (\<exists>evss st. feed ''bitcoin'' ''usd''
          (Some \<lparr>coin = ''bitcoin'', lower = Number (Fin 100), upper = Number (Fin 200)\<rparr>) None
          (map Some ([100, 95] @ [101] @ [99, 98])) = Inr (evss, st)
        \<and> map (of_direction Below) evss
            = [[below_alert ''bitcoin'' 100 ''usd'' (Number (Fin 100))], [], [],
               [below_alert ''bitcoin'' 99 ''usd'' (Number (Fin 100))], []])
   \<and> feed ''bitcoin'' ''usd''
      (Some \<lparr>coin = ''bitcoin'', lower = Number (Fin 100), upper = Number (Fin 200)\<rparr>) (Some cleared)
      (map Some ([200, 250] @ [150] @ [210]))
     = Inr ([[above_alert ''bitcoin'' 200 ''usd'' (Number (Fin 200))], [], [],
             [above_alert ''bitcoin'' 210 ''usd'' (Number (Fin 200))]],
            Some \<lparr>above = True, below = False\<rparr>)
   \<and> (\<exists>evss st. feed ''bitcoin'' ''usd''
          (Some \<lparr>coin = ''bitcoin'', lower = Number (Fin 100), upper = Number (Fin 200)\<rparr>) (Some cleared)
          (map Some ([200, 250] @ [150] @ [210])) = Inr (evss, st)
        \<and> map (of_direction Above) evss
            = [[above_alert ''bitcoin'' 200 ''usd'' (Number (Fin 200))], [], [],
               [above_alert ''bitcoin'' 210 ''usd'' (Number (Fin 200))]])
   \<and> distinct [''bitcoin''] \<and> ''bitcoin'' \<in> set [''bitcoin'']
   \<and> run [''bitcoin''] ''usd''
        (first_session [\<lparr>coin = ''bitcoin'', lower = Number (Fin 100), upper = Number (Fin 200)\<rparr>])
        [one_quote ''bitcoin'' ''usd'' 100, one_quote ''bitcoin'' ''usd'' 95]
      = (\<lparr>history = [''bitcoin'' \<mapsto> [100, 95]],
          last_alert_state = [''bitcoin'' \<mapsto> \<lparr>above = False, below = True\<rparr>],
          thresholds = [\<lparr>coin = ''bitcoin'', lower = Number (Fin 100), upper = Number (Fin 200)\<rparr>]\<rparr>,
         Inr [[below_alert ''bitcoin'' 100 ''usd'' (Number (Fin 100))], []])
   \<and> feed ''bitcoin'' ''usd''
        (Some \<lparr>coin = ''bitcoin'', lower = Number (Fin 100), upper = Number (Fin 200)\<rparr>) None
        [Some 100, Some 95]
      = Inr ([[below_alert ''bitcoin'' 100 ''usd'' (Number (Fin 100))], []],
             Some \<lparr>above = False, below = True\<rparr>)"
proof -
  let ?th = "\<lparr>coin = ''bitcoin'', lower = Number (Fin 100), upper = Number (Fin 200)\<rparr>"
  let ?ses' = "\<lparr>history = [''bitcoin'' \<mapsto> [100, 95]],
          last_alert_state = [''bitcoin'' \<mapsto> \<lparr>above = False, below = True\<rparr>],
          thresholds = [?th]\<rparr>"
  let ?outs = "[[below_alert ''bitcoin'' 100 ''usd'' (Number (Fin 100))], []]"
  let ?pds = "[one_quote ''bitcoin'' ''usd'' 100, one_quote ''bitcoin'' ''usd'' 95]"
  note w = edge_triggered_alerts [of ?th 100 None "[100, 95]" "[101]" "[99, 98]" "''bitcoin''" "''usd''"
      ?th 200 "Some cleared" "[200, 250]" "[150]" "[210]" "[''bitcoin'']" "first_session [?th]"
      ?pds ?ses' ?outs]
  have hb: "lower ?th = Number (Fin 100) \<and> \<not> is_malformed (upper ?th)
      \<and> \<not> below (get_last_state None)
      \<and> [100, 95] \<noteq> [] \<and> (\<forall>p\<in>set [100, 95 :: real]. p \<le> 100)
      \<and> [101] \<noteq> [] \<and> (\<forall>q\<in>set [101 :: real]. 100 < q)
      \<and> [99, 98] \<noteq> [] \<and> (\<forall>p\<in>set [99, 98 :: real]. p \<le> 100)"
    by (simp add: get_last_state_def cleared_def)
  have ha: "upper ?th = Number (Fin 200) \<and> \<not> is_malformed (lower ?th)
      \<and> \<not> above (get_last_state (Some cleared))
      \<and> [200, 250] \<noteq> [] \<and> (\<forall>p\<in>set [200, 250 :: real]. 200 \<le> p)
      \<and> [150] \<noteq> [] \<and> (\<forall>q\<in>set [150 :: real]. q < 200)
      \<and> [210] \<noteq> [] \<and> (\<forall>p\<in>set [210 :: real]. 200 \<le> p)"
    by (simp add: get_last_state_def cleared_def)
  have d: "distinct [''bitcoin''] \<and> ''bitcoin'' \<in> set [''bitcoin'']" by simp
  have r: "run [''bitcoin''] ''usd'' (first_session [?th]) ?pds = (?ses', Inr ?outs)"
    by (simp add: scenario_defs)
  from w hb have 1: "\<exists>evss st. feed ''bitcoin'' ''usd'' (Some ?th) None
          (map Some ([100, 95] @ [101] @ [99, 98])) = Inr (evss, st)
        \<and> map (of_direction Below) evss
            = [[below_alert ''bitcoin'' 100 ''usd'' (Number (Fin 100))], [], [],
               [below_alert ''bitcoin'' 99 ''usd'' (Number (Fin 100))], []]"
    by simp
  from w ha have 2: "\<exists>evss st. feed ''bitcoin'' ''usd'' (Some ?th) (Some cleared)
          (map Some ([200, 250] @ [150] @ [210])) = Inr (evss, st)
        \<and> map (of_direction Above) evss
            = [[above_alert ''bitcoin'' 200 ''usd'' (Number (Fin 200))], [], [],
               [above_alert ''bitcoin'' 210 ''usd'' (Number (Fin 200))]]"
    by simp
  from w d r have 3: "feed ''bitcoin'' ''usd'' (Some ?th) None [Some 100, Some 95]
      = Inr (?outs, Some \<lparr>above = False, below = True\<rparr>)"
    by (simp add: scenario_defs)
  have 4: "feed ''bitcoin'' ''usd'' (Some ?th) None (map Some ([100, 95] @ [101] @ [99, 98]))
     = Inr ([[below_alert ''bitcoin'' 100 ''usd'' (Number (Fin 100))], [], [],
             [below_alert ''bitcoin'' 99 ''usd'' (Number (Fin 100))], []],
            Some \<lparr>above = False, below = True\<rparr>)"
    by (simp add: scenario_defs)
  have 5: "feed ''bitcoin'' ''usd'' (Some ?th) (Some cleared) (map Some ([200, 250] @ [150] @ [210]))
     = Inr ([[above_alert ''bitcoin'' 200 ''usd'' (Number (Fin 200))], [], [],
             [above_alert ''bitcoin'' 210 ''usd'' (Number (Fin 200))]],
            Some \<lparr>above = True, below = False\<rparr>)"
    by (simp add: scenario_defs)
  from 1 2 3 4 5 d r show ?thesis by blast
qed

text \<open>
  C2, as the specification states it: after every evaluation of a coin with a price
  and a row, \<open>below\<close> is true exactly when the price just observed is \<^verbatim>\<open><=\<close> the lower
  bound. The state is stored at line 273, after both conversions of lines 255 and 256:
  with the row \<^verbatim>\<open>{lower: 100, upper: "abc"}\<close>, the stored latch \<open>below\<close> set and the
  price 150, line 256 raises \<^verbatim>\<open>ValueError\<close> and the run of the script ends with the
  price in the history and the latch still set, though 150 is above 100.
\<close>

theorem latch_stale_after_exception:
  "cycle [''bitcoin''] ''usd'' (one_quote ''bitcoin'' ''usd'' 150)
      \<lparr>history = [''bitcoin'' \<mapsto> [95]],
       last_alert_state = [''bitcoin'' \<mapsto> \<lparr>above = False, below = True\<rparr>],
       thresholds = [\<lparr>coin = ''bitcoin'', lower = Number (Fin 100), upper = Malformed ''abc''\<rparr>]\<rparr>
     = (\<lparr>history = [''bitcoin'' \<mapsto> [95, 150]],
         last_alert_state = [''bitcoin'' \<mapsto> \<lparr>above = False, below = True\<rparr>],
         thresholds = [\<lparr>coin = ''bitcoin'', lower = Number (Fin 100), upper = Malformed ''abc''\<rparr>]\<rparr>,
        Inl ValueError)
   \<and> below \<lparr>above = False, below = True\<rparr>
   \<and> \<not> py_le 150 (Fin 100)
   \<and> \<not> (150::real) \<le> 100"
  by (simp add: scenario_defs)

text \<open>
  C2, as the code has it: after every evaluation that returns, which is every
  evaluation of a row whose cells are absent or values that \<^verbatim>\<open>float\<close> accepts, the
  stored state says what the price just observed is against the bounds: \<open>below\<close> is true
  exactly when the lower cell is not absent and the price is \<^verbatim>\<open><=\<close> it (for a finite
  bound \<open>lo\<close>, when \<open>p \<le> lo\<close>), and \<open>above\<close> is true exactly when the upper cell is not
  absent and the price is \<^verbatim>\<open>>=\<close> it (for a finite bound \<open>hi\<close>, when \<open>hi \<le> p\<close>). The same
  holds for the state that a run of the script over distinct coins leaves for the
  coin. When \<^verbatim>\<open>float\<close> rejects a cell of the row, the evaluation raises
  \<^verbatim>\<open>ValueError\<close> and the run of the script leaves the stored state of the coin as it
  was.
\<close>

theorem edge_state_invariant:
  "(\<not> is_malformed (lower th) \<and> \<not> is_malformed (upper th) \<longrightarrow>
      (\<exists>evs s'. evaluate c p vs th s = Inr (evs, s')))
   \<and> (evaluate c p vs th s = Inr (evs, s') \<longrightarrow>
        below s' = (\<exists>b. lower th = Number b \<and> py_le p b)
        \<and> above s' = (\<exists>b. upper th = Number b \<and> py_ge p b))
   \<and> (distinct coins \<and> c \<in> set coins \<and> cycle coins vs pd ses = (ses', Inr out)
        \<and> price_of pd vs c = Some p \<and> th_map (thresholds ses) c = Some th \<longrightarrow>
        (\<exists>st. last_alert_state ses' c = Some st
           \<and> below st = (\<exists>b. lower th = Number b \<and> py_le p b)
           \<and> above st = (\<exists>b. upper th = Number b \<and> py_ge p b)))
   \<and> (evaluate c p vs th s = Inr (evs, s') \<and> lower th = Number (Fin lo) \<longrightarrow>
        below s' = (p \<le> lo))
   \<and> (evaluate c p vs th s = Inr (evs, s') \<and> upper th = Number (Fin hi) \<longrightarrow>
        above s' = (hi \<le> p))
   \<and> (price_of fetched vs c = Some p \<and> th_map (thresholds sess) c = Some th
        \<and> (is_malformed (lower th) \<or> is_malformed (upper th))
        \<and> cycle tracked vs fetched sess = (sess', res) \<longrightarrow>
        alert_body c vs (Some p) (Some th) (last_alert_state sess c) = Inl ValueError
        \<and> last_alert_state sess' c = last_alert_state sess c)"
proof (intro conjI impI)
  assume "\<not> is_malformed (lower th) \<and> \<not> is_malformed (upper th)"
  then show "\<exists>evs s'. evaluate c p vs th s = Inr (evs, s')"
    using evaluate_ok [of th c p vs s] by blast
next
  assume e: "evaluate c p vs th s = Inr (evs, s')"
  then have m: "\<not> is_malformed (lower th)" "\<not> is_malformed (upper th)"
    using evaluate_Inr by blast+
  from e show "below s' = (\<exists>b. lower th = Number b \<and> py_le p b)"
    unfolding evaluate_ok [OF m] by auto
  from e show "above s' = (\<exists>b. upper th = Number b \<and> py_ge p b)"
    unfolding evaluate_ok [OF m] by auto
next
  assume a: "distinct coins \<and> c \<in> set coins \<and> cycle coins vs pd ses = (ses', Inr out)
        \<and> price_of pd vs c = Some p \<and> th_map (thresholds ses) c = Some th"
  then have "alert_body c vs (Some p) (Some th) (last_alert_state ses c)
      = Inr (of_coin c out, last_alert_state ses' c)"
    using cycle_local [of coins c vs pd ses ses' out] by simp
  then obtain st where e: "evaluate c p vs th (get_last_state (last_alert_state ses c))
      = Inr (of_coin c out, st)" and st: "last_alert_state ses' c = Some st"
    by (auto simp: alert_body_evaluate split: sum.splits)
  from e have m: "\<not> is_malformed (lower th)" "\<not> is_malformed (upper th)"
    using evaluate_Inr by blast+
  from e have "below st = (\<exists>b. lower th = Number b \<and> py_le p b)
      \<and> above st = (\<exists>b. upper th = Number b \<and> py_ge p b)"
    unfolding evaluate_ok [OF m] by auto
  with st show "\<exists>st. last_alert_state ses' c = Some st
           \<and> below st = (\<exists>b. lower th = Number b \<and> py_le p b)
           \<and> above st = (\<exists>b. upper th = Number b \<and> py_ge p b)" by blast
next
  assume "evaluate c p vs th s = Inr (evs, s') \<and> lower th = Number (Fin lo)"
  then show "below s' = (p \<le> lo)"
    using evaluate_finite_bounds(1) by blast
next
  assume "evaluate c p vs th s = Inr (evs, s') \<and> upper th = Number (Fin hi)"
  then show "above s' = (hi \<le> p)"
    using evaluate_finite_bounds(2) by blast
next
  assume a: "price_of fetched vs c = Some p \<and> th_map (thresholds sess) c = Some th
        \<and> (is_malformed (lower th) \<or> is_malformed (upper th))
        \<and> cycle tracked vs fetched sess = (sess', res)"
  then show "alert_body c vs (Some p) (Some th) (last_alert_state sess c) = Inl ValueError"
    using alert_body_raises by blast
  from a show "last_alert_state sess' c = last_alert_state sess c"
    using cycle_raising_coin [of fetched vs c p sess th tracked sess' res] by blast
qed

theorem edge_state_invariant_witness:
  "evaluate ''bitcoin'' 95 ''usd''
      \<lparr>coin = ''bitcoin'', lower = Number (Fin 100), upper = Number (Fin 95)\<rparr>
      \<lparr>above = False, below = False\<rparr>
     = Inr ([below_alert ''bitcoin'' 95 ''usd'' (Number (Fin 100)),
             above_alert ''bitcoin'' 95 ''usd'' (Number (Fin 95))],
            \<lparr>above = True, below = True\<rparr>)
   \<and> below \<lparr>above = True, below = True\<rparr> = ((95::real) \<le> 100)
   \<and> above \<lparr>above = True, below = True\<rparr> = ((95::real) \<le> 95)
   \<and> distinct [''bitcoin''] \<and> ''bitcoin'' \<in> set [''bitcoin'']
   \<and> cycle [''bitcoin''] ''usd'' (one_quote ''bitcoin'' ''usd'' 95)
        (first_session [\<lparr>coin = ''bitcoin'', lower = Number (Fin 100), upper = Number (Fin 95)\<rparr>])
      = (\<lparr>history = [''bitcoin'' \<mapsto> [95]],
          last_alert_state = [''bitcoin'' \<mapsto> \<lparr>above = True, below = True\<rparr>],
          thresholds = [\<lparr>coin = ''bitcoin'', lower = Number (Fin 100), upper = Number (Fin 95)\<rparr>]\<rparr>,
         Inr [below_alert ''bitcoin'' 95 ''usd'' (Number (Fin 100)),
              above_alert ''bitcoin'' 95 ''usd'' (Number (Fin 95))])
   \<and> (\<exists>st. [''bitcoin'' \<mapsto> \<lparr>above = True, below = True\<rparr>] ''bitcoin'' = Some st
          \<and> below st \<and> above st)
   \<and> evaluate ''bitcoin'' 150 ''usd''
        \<lparr>coin = ''bitcoin'', lower = Number (Fin 100), upper = Number (Fin 200)\<rparr>
        \<lparr>above = True, below = True\<rparr>
      = Inr ([], \<lparr>above = False, below = False\<rparr>)
   \<and> below \<lparr>above = False, below = False\<rparr> = ((150::real) \<le> 100)
   \<and> above \<lparr>above = False, below = False\<rparr> = ((200::real) \<le> 150)
   \<and> is_malformed (upper \<lparr>coin = ''bitcoin'', lower = Number (Fin 100), upper = Malformed ''abc''\<rparr>)
   \<and> cycle [''bitcoin''] ''usd'' (one_quote ''bitcoin'' ''usd'' 150)
        \<lparr>history = [''bitcoin'' \<mapsto> [95]],
         last_alert_state = [''bitcoin'' \<mapsto> \<lparr>above = False, below = True\<rparr>],
         thresholds = [\<lparr>coin = ''bitcoin'', lower = Number (Fin 100), upper = Malformed ''abc''\<rparr>]\<rparr>
      = (\<lparr>history = [''bitcoin'' \<mapsto> [95, 150]],
          last_alert_state = [''bitcoin'' \<mapsto> \<lparr>above = False, below = True\<rparr>],
          thresholds = [\<lparr>coin = ''bitcoin'', lower = Number (Fin 100), upper = Malformed ''abc''\<rparr>]\<rparr>,
         Inl ValueError)
   \<and> alert_body ''bitcoin'' ''usd'' (Some 150)
        (Some \<lparr>coin = ''bitcoin'', lower = Number (Fin 100), upper = Malformed ''abc''\<rparr>)
        (Some \<lparr>above = False, below = True\<rparr>) = Inl ValueError"
proof -
  let ?th = "\<lparr>coin = ''bitcoin'', lower = Number (Fin 100), upper = Number (Fin 95)\<rparr>"
  let ?evs = "[below_alert ''bitcoin'' 95 ''usd'' (Number (Fin 100)),
               above_alert ''bitcoin'' 95 ''usd'' (Number (Fin 95))]"
  let ?s = "\<lparr>above = False, below = False\<rparr>"
  let ?s' = "\<lparr>above = True, below = True\<rparr>"
  let ?ses' = "\<lparr>history = [''bitcoin'' \<mapsto> [95]],
          last_alert_state = [''bitcoin'' \<mapsto> ?s'], thresholds = [?th]\<rparr>"
  let ?th3 = "\<lparr>coin = ''bitcoin'', lower = Number (Fin 100), upper = Number (Fin 200)\<rparr>"
  let ?bad = "\<lparr>coin = ''bitcoin'', lower = Number (Fin 100), upper = Malformed ''abc''\<rparr>"
  let ?old = "\<lparr>above = False, below = True\<rparr>"
  let ?b = "\<lparr>history = [''bitcoin'' \<mapsto> [95]], last_alert_state = [''bitcoin'' \<mapsto> ?old],
         thresholds = [?bad]\<rparr>"
  let ?b' = "\<lparr>history = [''bitcoin'' \<mapsto> [95, 150]], last_alert_state = [''bitcoin'' \<mapsto> ?old],
         thresholds = [?bad]\<rparr>"
  have m: "\<not> is_malformed (lower ?th) \<and> \<not> is_malformed (upper ?th)" by simp
  have e: "evaluate ''bitcoin'' 95 ''usd'' ?th ?s = Inr (?evs, ?s')"
    by (simp add: scenario_defs)
  have d: "distinct [''bitcoin''] \<and> ''bitcoin'' \<in> set [''bitcoin'']" by simp
  have r: "cycle [''bitcoin''] ''usd'' (one_quote ''bitcoin'' ''usd'' 95) (first_session [?th])
      = (?ses', Inr ?evs)"
    by (simp add: scenario_defs)
  have p: "price_of (one_quote ''bitcoin'' ''usd'' 95) ''usd'' ''bitcoin'' = Some 95"
    by (simp add: scenario_defs)
  have t: "th_map (thresholds (first_session [?th])) ''bitcoin'' = Some ?th"
    by (simp add: scenario_defs)
  have lo: "lower ?th = Number (Fin 100)" and hi: "upper ?th = Number (Fin 95)" by simp_all
  note w = edge_state_invariant [where th = ?th and c = "''bitcoin''" and p = 95 and vs = "''usd''"
      and s = ?s and evs = ?evs and s' = ?s' and coins = "[''bitcoin'']"
      and pd = "one_quote ''bitcoin'' ''usd'' 95" and ses = "first_session [?th]"
      and ses' = ?ses' and out = ?evs and lo = 100 and hi = 95]
  from w m have 1: "\<exists>evs s'. evaluate ''bitcoin'' 95 ''usd'' ?th ?s = Inr (evs, s')" by blast
  from w e lo have 2: "below ?s' = ((95::real) \<le> 100)" by blast
  from w e hi have 3: "above ?s' = ((95::real) \<le> 95)" by blast
  from w d r p t have 4: "\<exists>st. last_alert_state ?ses' ''bitcoin'' = Some st
      \<and> below st = (\<exists>b. lower ?th = Number b \<and> py_le 95 b)
      \<and> above st = (\<exists>b. upper ?th = Number b \<and> py_ge 95 b)" by blast
  then have 5: "\<exists>st. [''bitcoin'' \<mapsto> ?s'] ''bitcoin'' = Some st \<and> below st \<and> above st"
    by simp
  have e3: "evaluate ''bitcoin'' 150 ''usd'' ?th3 ?s' = Inr ([], ?s)"
    by (simp add: scenario_defs)
  have lo3: "lower ?th3 = Number (Fin 100)" and hi3: "upper ?th3 = Number (Fin 200)" by simp_all
  note w3 = edge_state_invariant [where th = ?th3 and c = "''bitcoin''" and p = 150 and vs = "''usd''"
      and s = ?s' and evs = "[]" and s' = ?s and lo = 100 and hi = 200]
  from w3 e3 lo3 have 6: "below ?s = ((150::real) \<le> 100)" by blast
  from w3 e3 hi3 have 7: "above ?s = ((200::real) \<le> 150)" by blast
  have bm: "is_malformed (upper ?bad)" by simp
  have bp: "price_of (one_quote ''bitcoin'' ''usd'' 150) ''usd'' ''bitcoin'' = Some 150"
    by (simp add: scenario_defs)
  have bt: "th_map (thresholds ?b) ''bitcoin'' = Some ?bad"
    by (simp add: scenario_defs)
  have br: "cycle [''bitcoin''] ''usd'' (one_quote ''bitcoin'' ''usd'' 150) ?b = (?b', Inl ValueError)"
    by (simp add: scenario_defs)
  note wb = edge_state_invariant [where th = ?bad and c = "''bitcoin''" and p = 150 and vs = "''usd''"
      and fetched = "one_quote ''bitcoin'' ''usd'' 150" and sess = ?b and tracked = "[''bitcoin'']"
      and sess' = ?b' and res = "Inl ValueError"]
  from wb bm bp bt br
  have "alert_body ''bitcoin'' ''usd'' (Some 150) (Some ?bad) (last_alert_state ?b ''bitcoin'')
      = Inl ValueError" by blast
  then have 8: "alert_body ''bitcoin'' ''usd'' (Some 150) (Some ?bad) (Some ?old) = Inl ValueError"
    by simp
  from e 2 3 d r 5 e3 6 7 bm br 8 show ?thesis by blast
qed

text \<open>
  C3. A cycle in which a coin has no quote gives no alert for the coin and leaves the
  stored state and the buffer of the coin as they were, whatever happens to the other
  coins in that cycle. When the whole fetch fails (the answer is \<^verbatim>\<open>{}\<close>) the run of the
  script returns the session unchanged and no alert. So the cycles that follow behave
  as if the failed cycle had not happened: successive runs of the script with a failed
  fetch among them end in the session, and give the alerts, of the runs without it,
  with an empty list of alerts at the failed cycle; and the same holds for the cycles
  of one coin with a cycle without a quote among them.
\<close>

theorem absent_price_frame:
  "(price_of pd vs c = None \<and> cycle coins vs pd ses = (ses', res) \<longrightarrow>
      history ses' c = history ses c
      \<and> last_alert_state ses' c = last_alert_state ses c
      \<and> (\<forall>out. res = Inr out \<longrightarrow> of_coin c out = []))
   \<and> alert_body c vs None th stored = Inr ([], stored)
   \<and> cycle coins vs Map.empty ses = (ses, Inr [])
   \<and> run coins vs ses (before @ Map.empty # after) =
       (case run coins vs ses (before @ after) of
          (s, Inl e) \<Rightarrow> (s, Inl e)
        | (s, Inr outs) \<Rightarrow>
            (s, Inr (take (length before) outs @ [] # drop (length before) outs)))
   \<and> feed c vs th stored (prices1 @ None # prices2) =
       (case feed c vs th stored (prices1 @ prices2) of
          Inl e \<Rightarrow> Inl e
        | Inr (evss, st) \<Rightarrow>
            Inr (take (length prices1) evss @ [] # drop (length prices1) evss, st))"
  using cycle_absent [of pd vs c coins ses ses' res]
  by (simp add: alert_body_absent cycle_empty run_failed_fetch feed_failed_fetch)

theorem absent_price_frame_witness:
  "price_of (one_quote ''ethereum'' ''usd'' 2000) ''usd'' ''bitcoin'' = None
   \<and> cycle [''bitcoin'', ''ethereum''] ''usd'' (one_quote ''ethereum'' ''usd'' 2000)
        \<lparr>history = [''bitcoin'' \<mapsto> [95]],
         last_alert_state = [''bitcoin'' \<mapsto> \<lparr>above = False, below = True\<rparr>],
         thresholds = [\<lparr>coin = ''bitcoin'', lower = Number (Fin 100), upper = PyNone\<rparr>,
                       \<lparr>coin = ''ethereum'', lower = PyNone, upper = Number (Fin 1900)\<rparr>]\<rparr>
      = (\<lparr>history = [''bitcoin'' \<mapsto> [95], ''ethereum'' \<mapsto> [2000]],
          last_alert_state = [''bitcoin'' \<mapsto> \<lparr>above = False, below = True\<rparr>,
                              ''ethereum'' \<mapsto> \<lparr>above = True, below = False\<rparr>],
          thresholds = [\<lparr>coin = ''bitcoin'', lower = Number (Fin 100), upper = PyNone\<rparr>,
                        \<lparr>coin = ''ethereum'', lower = PyNone, upper = Number (Fin 1900)\<rparr>]\<rparr>,
         Inr [above_alert ''ethereum'' 2000 ''usd'' (Number (Fin 1900))])
   \<and> [''bitcoin'' \<mapsto> [95], ''ethereum'' \<mapsto> [2000::real]] ''bitcoin'' = [''bitcoin'' \<mapsto> [95]] ''bitcoin''
   \<and> [''bitcoin'' \<mapsto> \<lparr>above = False, below = True\<rparr>,
       ''ethereum'' \<mapsto> \<lparr>above = True, below = False\<rparr>] ''bitcoin''
      = [''bitcoin'' \<mapsto> \<lparr>above = False, below = True\<rparr>] ''bitcoin''
   \<and> of_coin ''bitcoin'' [above_alert ''ethereum'' 2000 ''usd'' (Number (Fin 1900))] = []"
proof -
  let ?rows = "[\<lparr>coin = ''bitcoin'', lower = Number (Fin 100), upper = PyNone\<rparr>,
                \<lparr>coin = ''ethereum'', lower = PyNone, upper = Number (Fin 1900)\<rparr>]"
  let ?ses = "\<lparr>history = [''bitcoin'' \<mapsto> [95]],
         last_alert_state = [''bitcoin'' \<mapsto> \<lparr>above = False, below = True\<rparr>],
         thresholds = ?rows\<rparr>"
  let ?ses' = "\<lparr>history = [''bitcoin'' \<mapsto> [95], ''ethereum'' \<mapsto> [2000]],
          last_alert_state = [''bitcoin'' \<mapsto> \<lparr>above = False, below = True\<rparr>,
                              ''ethereum'' \<mapsto> \<lparr>above = True, below = False\<rparr>],
          thresholds = ?rows\<rparr>"
  let ?out = "[above_alert ''ethereum'' 2000 ''usd'' (Number (Fin 1900))]"
  have p: "price_of (one_quote ''ethereum'' ''usd'' 2000) ''usd'' ''bitcoin'' = None"
    by (simp add: scenario_defs)
  have r: "cycle [''bitcoin'', ''ethereum''] ''usd'' (one_quote ''ethereum'' ''usd'' 2000) ?ses
      = (?ses', Inr ?out)"
    by (simp add: scenario_defs fun_upd_twist)
  from absent_price_frame [of "one_quote ''ethereum'' ''usd'' 2000" "''usd''" "''bitcoin''"
      "[''bitcoin'', ''ethereum'']" ?ses ?ses' "Inr ?out"] p r
  have "history ?ses' ''bitcoin'' = history ?ses ''bitcoin''
      \<and> last_alert_state ?ses' ''bitcoin'' = last_alert_state ?ses ''bitcoin''
      \<and> of_coin ''bitcoin'' ?out = []"
    by blast
  with p r show ?thesis by simp
qed

text \<open>
  C4, as the specification states it: the evaluation of a row never raises, and a
  cell that is absent or malformed, a non-numeric entry of the editable table included,
  counts as no bound. The cells of the table are edited as text; line 255 calls
  \<^verbatim>\<open>float\<close> on every lower cell that is not \<^verbatim>\<open>None\<close> and line 256 on every such
  upper cell, and nothing in the alert logic handles the exception of \<^verbatim>\<open>float\<close>. At
  the lower cell \<^verbatim>\<open>"abc"\<close> the evaluation raises \<^verbatim>\<open>ValueError\<close>; a first run of the
  script with this table has then appended the price to the history, stored no state,
  and ends with the exception, before any alert is logged or sent.
\<close>

theorem malformed_threshold_raises:
  "evaluate ''bitcoin'' 100 ''usd''
      \<lparr>coin = ''bitcoin'', lower = Malformed ''abc'', upper = PyNone\<rparr> cleared = Inl ValueError
   \<and> cycle [''bitcoin''] ''usd'' (one_quote ''bitcoin'' ''usd'' 100)
        (first_session [\<lparr>coin = ''bitcoin'', lower = Malformed ''abc'', upper = PyNone\<rparr>])
      = (\<lparr>history = [''bitcoin'' \<mapsto> [100]], last_alert_state = Map.empty,
          thresholds = [\<lparr>coin = ''bitcoin'', lower = Malformed ''abc'', upper = PyNone\<rparr>]\<rparr>,
         Inl ValueError)"
  by (simp add: scenario_defs)

text \<open>
  C4, as the code has it: when \<^verbatim>\<open>float\<close> accepts every cell of the row that is not
  \<^verbatim>\<open>None\<close>, the evaluation returns, and a bound that is absent (\<^verbatim>\<open>None\<close>, or the NaN
  that stands for a missing number) never gives an alert; when \<^verbatim>\<open>float\<close> rejects one
  of the two cells, the evaluation raises \<^verbatim>\<open>ValueError\<close>.
\<close>

theorem threshold_evaluation:
  "(\<not> is_malformed (lower th) \<and> \<not> is_malformed (upper th) \<longrightarrow>
      (\<exists>evs s'. evaluate c p vs th s = Inr (evs, s')
         \<and> (lower th = PyNone \<or> lower th = Number NaN \<longrightarrow> of_direction Below evs = [])
         \<and> (upper th = PyNone \<or> upper th = Number NaN \<longrightarrow> of_direction Above evs = [])))
   \<and> (is_malformed (lower th) \<or> is_malformed (upper th) \<longrightarrow>
        evaluate c p vs th s = Inl ValueError)"
proof (intro conjI impI)
  assume "\<not> is_malformed (lower th) \<and> \<not> is_malformed (upper th)"
  then have m: "\<not> is_malformed (lower th)" "\<not> is_malformed (upper th)" by simp_all
  show "\<exists>evs s'. evaluate c p vs th s = Inr (evs, s')
         \<and> (lower th = PyNone \<or> lower th = Number NaN \<longrightarrow> of_direction Below evs = [])
         \<and> (upper th = PyNone \<or> upper th = Number NaN \<longrightarrow> of_direction Above evs = [])"
    unfolding evaluate_ok [OF m] by (auto simp: of_direction_def)
next
  assume "is_malformed (lower th) \<or> is_malformed (upper th)"
  then show "evaluate c p vs th s = Inl ValueError" by (rule evaluate_raises)
qed

theorem threshold_evaluation_witness:
  "\<not> is_malformed (lower \<lparr>coin = ''bitcoin'', lower = PyNone, upper = Number NaN\<rparr>)
   \<and> \<not> is_malformed (upper \<lparr>coin = ''bitcoin'', lower = PyNone, upper = Number NaN\<rparr>)
   \<and> evaluate ''bitcoin'' 100 ''usd'' \<lparr>coin = ''bitcoin'', lower = PyNone, upper = Number NaN\<rparr> cleared
       = Inr ([], cleared)
   \<and> is_malformed (upper \<lparr>coin = ''bitcoin'', lower = Number (Fin 100), upper = Malformed ''ten''\<rparr>)
   \<and> evaluate ''bitcoin'' 100 ''usd''
        \<lparr>coin = ''bitcoin'', lower = Number (Fin 100), upper = Malformed ''ten''\<rparr> cleared
       = Inl ValueError"
proof -
  let ?ok = "\<lparr>coin = ''bitcoin'', lower = PyNone, upper = Number NaN\<rparr>"
  let ?bad = "\<lparr>coin = ''bitcoin'', lower = Number (Fin 100), upper = Malformed ''ten''\<rparr>"
  have m: "\<not> is_malformed (lower ?ok) \<and> \<not> is_malformed (upper ?ok)" by simp
  have n: "lower ?ok = PyNone \<or> lower ?ok = Number NaN" "upper ?ok = PyNone \<or> upper ?ok = Number NaN"
    by simp_all
  have b: "is_malformed (lower ?bad) \<or> is_malformed (upper ?bad)" by simp
  from threshold_evaluation [of ?ok "''bitcoin''" 100 "''usd''" cleared] m n
  obtain evs s' where e: "evaluate ''bitcoin'' 100 ''usd'' ?ok cleared = Inr (evs, s')"
    and "of_direction Below evs = []" "of_direction Above evs = []" by blast
  have "evaluate ''bitcoin'' 100 ''usd'' ?ok cleared = Inr ([], cleared)"
    by (simp add: scenario_defs)
  moreover from threshold_evaluation [of ?bad "''bitcoin''" 100 "''usd''" cleared] b
  have "evaluate ''bitcoin'' 100 ''usd'' ?bad cleared = Inl ValueError" by blast
  ultimately show ?thesis using e by simp
qed

text \<open>
  C5. The buffer of a coin after any sequence of cycles, from a coin without an entry:
  its length is at most \<open>HISTORY_LEN\<close>, which is 300; it is the end of the list of
  the prices that were present, in the order of the cycles, nothing reordered and
  nothing removed but the oldest; and after more than \<open>HISTORY_LEN\<close> present prices it
  holds exactly the last \<open>HISTORY_LEN\<close> of them. In a run of the script over distinct
  coins the entry of a coin is updated by one such append.
\<close>

theorem history_window:
  "length (get_hist (foldl append_price None prices)) \<le> HISTORY_LEN
   \<and> get_hist (foldl append_price None prices)
       = drop (length (present prices) - HISTORY_LEN) (present prices)
   \<and> (length (present prices) > HISTORY_LEN \<longrightarrow>
        length (get_hist (foldl append_price None prices)) = HISTORY_LEN
        \<and> present prices = take (length (present prices) - HISTORY_LEN) (present prices)
                             @ get_hist (foldl append_price None prices))
   \<and> (distinct coins \<and> c \<in> set coins \<longrightarrow>
        history (fst (cycle coins vs pd ses)) c
          = append_price (history ses c) (price_of pd vs c))"
proof -
  have w: "get_hist (foldl append_price None prices)
       = drop (length (present prices) - HISTORY_LEN) (present prices)"
    using get_hist_foldl [of None prices] by (simp add: get_hist_None)
  show ?thesis
    by (simp add: w cycle_history history_loop_distinct)
qed

theorem history_window_witness:
  "length (present (map Some (map real [0..<301]))) > HISTORY_LEN
   \<and> length (get_hist (foldl append_price None (map Some (map real [0..<301])))) = HISTORY_LEN
   \<and> present (map Some (map real [0..<301]))
       = take (length (present (map Some (map real [0..<301]))) - HISTORY_LEN)
              (present (map Some (map real [0..<301])))
         @ get_hist (foldl append_price None (map Some (map real [0..<301])))
   \<and> distinct [''bitcoin'', ''ethereum''] \<and> ''ethereum'' \<in> set [''bitcoin'', ''ethereum'']
   \<and> history (fst (cycle [''bitcoin'', ''ethereum''] ''usd'' (one_quote ''ethereum'' ''usd'' 7)
                      (first_session []))) ''ethereum''
       = append_price (history (first_session []) ''ethereum'')
           (price_of (one_quote ''ethereum'' ''usd'' 7) ''usd'' ''ethereum'')
   \<and> get_hist (foldl append_price None (map Some (map real [0..<301]))) = map real [1..<301]"
proof -
  let ?ps = "map Some (map real [0..<301])"
  have l: "length (present ?ps) > HISTORY_LEN"
    by (simp only: present_Some) (simp add: HISTORY_LEN_def)
  have d: "distinct [''bitcoin'', ''ethereum''] \<and> ''ethereum'' \<in> set [''bitcoin'', ''ethereum'']"
    by simp
  note w = history_window [of ?ps "[''bitcoin'', ''ethereum'']" "''ethereum''" "''usd''"
      "one_quote ''ethereum'' ''usd'' 7" "first_session []"]
  have n: "length (present ?ps) - HISTORY_LEN = 1"
    by (simp only: present_Some) (simp add: HISTORY_LEN_def)
  from w have "get_hist (foldl append_price None ?ps) = drop 1 (map real [0..<301])"
    unfolding n by (simp only: present_Some)
  then have e: "get_hist (foldl append_price None ?ps) = map real [1..<301]"
    by (simp only: drop_map drop_upt) simp
  from w l d e show ?thesis by blast
qed

text \<open>
  C6. Scenario 1: the row \<^verbatim>\<open>{lower: 100, upper: None}\<close> and the prices 105, 100, 95, 101, 99
  in successive cycles, from a cleared state (stored, or the default of a coin without
  a stored state). Exactly two alerts are given, both for the lower bound: one at the
  second price, 100, and one at the fifth, 99; none at 105, 95 and 101. The same five
  cycles as runs of the script from a first session give the same alerts.
\<close>

theorem scenario_1:
  "feed c vs (Some \<lparr>coin = c, lower = Number (Fin 100), upper = PyNone\<rparr>) (Some cleared)
      [Some 105, Some 100, Some 95, Some 101, Some 99]
     = Inr ([[], [below_alert c 100 vs (Number (Fin 100))], [], [],
             [below_alert c 99 vs (Number (Fin 100))]],
            Some \<lparr>above = False, below = True\<rparr>)
   \<and> feed c vs (Some \<lparr>coin = c, lower = Number (Fin 100), upper = PyNone\<rparr>) None
      [Some 105, Some 100, Some 95, Some 101, Some 99]
     = Inr ([[], [below_alert c 100 vs (Number (Fin 100))], [], [],
             [below_alert c 99 vs (Number (Fin 100))]],
            Some \<lparr>above = False, below = True\<rparr>)
   \<and> run [c] vs (first_session [\<lparr>coin = c, lower = Number (Fin 100), upper = PyNone\<rparr>])
        (map (one_quote c vs) [105, 100, 95, 101, 99])
     = (\<lparr>history = [c \<mapsto> [105, 100, 95, 101, 99]],
         last_alert_state = [c \<mapsto> \<lparr>above = False, below = True\<rparr>],
         thresholds = [\<lparr>coin = c, lower = Number (Fin 100), upper = PyNone\<rparr>]\<rparr>,
        Inr [[], [below_alert c 100 vs (Number (Fin 100))], [], [],
             [below_alert c 99 vs (Number (Fin 100))]])"
  by (simp add: scenario_defs)

text \<open>
  C7. Scenario 4: with the row \<^verbatim>\<open>{lower: 50, upper: 40}\<close>, the price 45 and a cleared
  state, both conditions hold, and the evaluation returns, without an exception, two
  alerts, the one for the lower bound and then the one for the upper bound; both
  latches are set. The same holds for a first run of the script with this table.
\<close>

theorem scenario_4:
  "crossed_below 45 (Number (Fin 50)) = Inr True
   \<and> crossed_above 45 (Number (Fin 40)) = Inr True
   \<and> evaluate c 45 vs \<lparr>coin = c, lower = Number (Fin 50), upper = Number (Fin 40)\<rparr> cleared
       = Inr ([below_alert c 45 vs (Number (Fin 50)), above_alert c 45 vs (Number (Fin 40))],
              \<lparr>above = True, below = True\<rparr>)
   \<and> snd (cycle [c] vs (one_quote c vs 45)
            (first_session [\<lparr>coin = c, lower = Number (Fin 50), upper = Number (Fin 40)\<rparr>]))
       = Inr [below_alert c 45 vs (Number (Fin 50)), above_alert c 45 vs (Number (Fin 40))]"
  by (simp add: scenario_defs)

text \<open>
  C8. A row with both cells absent gives no alert, whatever the price and the stored
  state: the evaluation returns no alert and a cleared state, a coin fed any sequence
  of prices (present or not) gets no alert in any cycle, and in successive runs of the
  script the alerts handed to the log and the mailer hold none for the coin.
\<close>

theorem no_bounds_no_events:
  "(lower th = PyNone \<and> upper th = PyNone \<longrightarrow>
      evaluate c p vs th s = Inr ([], cleared)
      \<and> (\<exists>st. feed c vs (Some th) stored prices = Inr (replicate (length prices) [], st)))
   \<and> (th_map (thresholds ses) c = Some th \<and> lower th = PyNone \<and> upper th = PyNone
        \<and> run coins vs ses pds = (ses', Inr outs) \<longrightarrow>
        map (of_coin c) outs = replicate (length pds) [])"
  using evaluate_no_bounds [of th c p vs s] feed_no_bounds [of th c vs stored prices]
    run_quiet [of th ses c coins vs pds ses' outs]
  by blast

theorem no_bounds_no_events_witness:
  "lower \<lparr>coin = ''tether'', lower = PyNone, upper = PyNone\<rparr> = PyNone
   \<and> upper \<lparr>coin = ''tether'', lower = PyNone, upper = PyNone\<rparr> = PyNone
   \<and> evaluate ''tether'' 1 ''usd'' \<lparr>coin = ''tether'', lower = PyNone, upper = PyNone\<rparr>
        \<lparr>above = True, below = True\<rparr> = Inr ([], cleared)
   \<and> (\<exists>st. feed ''tether'' ''usd'' (Some \<lparr>coin = ''tether'', lower = PyNone, upper = PyNone\<rparr>)
          None [Some 1, None, Some 5] = Inr (replicate (length [Some 1, None, Some (5::real)]) [], st))
   \<and> th_map (thresholds (first_session [\<lparr>coin = ''tether'', lower = PyNone, upper = PyNone\<rparr>]))
        ''tether'' = Some \<lparr>coin = ''tether'', lower = PyNone, upper = PyNone\<rparr>
   \<and> run [''tether''] ''usd'' (first_session [\<lparr>coin = ''tether'', lower = PyNone, upper = PyNone\<rparr>])
        [one_quote ''tether'' ''usd'' 1, one_quote ''tether'' ''usd'' 5]
      = (\<lparr>history = [''tether'' \<mapsto> [1, 5]], last_alert_state = [''tether'' \<mapsto> cleared],
          thresholds = [\<lparr>coin = ''tether'', lower = PyNone, upper = PyNone\<rparr>]\<rparr>,
         Inr [[], []])
   \<and> map (of_coin ''tether'') [[], []]
      = replicate (length [one_quote ''tether'' ''usd'' 1, one_quote ''tether'' ''usd'' 5]) []"
proof -
  let ?th = "\<lparr>coin = ''tether'', lower = PyNone, upper = PyNone\<rparr>"
  let ?pds = "[one_quote ''tether'' ''usd'' 1, one_quote ''tether'' ''usd'' 5]"
  let ?ses' = "\<lparr>history = [''tether'' \<mapsto> [1, 5]], last_alert_state = [''tether'' \<mapsto> cleared],
          thresholds = [?th]\<rparr>"
  have n: "lower ?th = PyNone \<and> upper ?th = PyNone" by simp
  have t: "th_map (thresholds (first_session [?th])) ''tether'' = Some ?th"
    by (simp add: scenario_defs)
  have r: "run [''tether''] ''usd'' (first_session [?th]) ?pds = (?ses', Inr [[], []])"
    by (simp add: scenario_defs)
  note w = no_bounds_no_events [of ?th "''tether''" 1 "''usd''" "\<lparr>above = True, below = True\<rparr>"
      None "[Some 1, None, Some 5]" "first_session [?th]" "[''tether'']" ?pds ?ses' "[[], []]"]
  from w n have 1: "evaluate ''tether'' 1 ''usd'' ?th \<lparr>above = True, below = True\<rparr> = Inr ([], cleared)
      \<and> (\<exists>st. feed ''tether'' ''usd'' (Some ?th) None [Some 1, None, Some 5]
            = Inr (replicate (length [Some 1, None, Some (5::real)]) [], st))"
    by blast
  from w n t r have 2: "map (of_coin ''tether'') [[], []] = replicate (length ?pds) []"
    by blast
  from n 1 2 t r show ?thesis by blast
qed

text \<open>
  C9. Appending an absent price changes nothing: the entry of the coin is returned as
  it is, and a cycle in which the coin has no quote leaves the dictionary, the entry
  of the coin after the whole loop and after the whole run of the script as they were.
\<close>

theorem absent_price_keeps_history:
  "append_price entry None = entry
   \<and> (price_of pd vs c = None \<longrightarrow>
        update_history pd vs h c = h
        \<and> history_loop pd vs coins h c = h c
        \<and> history (fst (cycle coins vs pd ses)) c = history ses c)"
  by (simp add: append_price_absent update_history_absent history_loop_absent cycle_history)

theorem absent_price_keeps_history_witness:
  "price_of Map.empty ''usd'' ''bitcoin'' = None
   \<and> update_history Map.empty ''usd'' [''bitcoin'' \<mapsto> [1, 2]] ''bitcoin'' = [''bitcoin'' \<mapsto> [1, 2]]
   \<and> history_loop Map.empty ''usd'' [''bitcoin''] [''bitcoin'' \<mapsto> [1, 2]] ''bitcoin'' = Some [1, 2]
   \<and> history (fst (cycle [''bitcoin''] ''usd'' Map.empty
        \<lparr>history = [''bitcoin'' \<mapsto> [1, 2]], last_alert_state = Map.empty, thresholds = []\<rparr>))
        ''bitcoin'' = Some [1, 2]"
proof -
  have p: "price_of Map.empty ''usd'' ''bitcoin'' = None"
    by (simp add: price_of_def)
  from absent_price_keeps_history [of None Map.empty "''usd''" "''bitcoin''"
      "[''bitcoin'' \<mapsto> [1, 2]]" "[''bitcoin'']"
      "\<lparr>history = [''bitcoin'' \<mapsto> [1, 2]], last_alert_state = Map.empty, thresholds = []\<rparr>"] p
  show ?thesis by simp
qed

text \<open>
  C10. In one cycle the evaluation of one coin appends at most two alerts, at most one
  for the lower bound and at most one for the upper bound, and when both are appended
  the one for the lower bound comes first: the directions of the alerts of the coin
  are one of the four lists \<open>[]\<close>, \<open>[Below]\<close>, \<open>[Above]\<close>, \<open>[Below, Above]\<close>. This holds
  for the body of the loop, and for the alerts of the coin among those of a whole run
  of the script over distinct coins.
\<close>

theorem events_per_cycle:
  "(evaluate c p vs th s = Inr (evs, s') \<longrightarrow>
      map direction evs \<in> {[], [Below], [Above], [Below, Above]})
   \<and> (distinct coins \<and> cycle coins vs pd ses = (ses', Inr out) \<longrightarrow>
      map direction (of_coin c out) \<in> {[], [Below], [Above], [Below, Above]})"
proof (intro conjI impI)
  assume "evaluate c p vs th s = Inr (evs, s')"
  then show "map direction evs \<in> {[], [Below], [Above], [Below, Above]}"
    by (rule evaluate_directions)
next
  assume a: "distinct coins \<and> cycle coins vs pd ses = (ses', Inr out)"
  then have loop: "alert_loop pd vs (th_map (thresholds ses)) coins (last_alert_state ses) []
      = (last_alert_state ses', Inr out)"
    using cycle_alert_loop by blast
  show "map direction (of_coin c out) \<in> {[], [Below], [Above], [Below, Above]}"
  proof (cases "c \<in> set coins")
    case True
    from alert_loop_local [OF _ True loop] a
    obtain evs where "alert_body c vs (price_of pd vs c) (th_map (thresholds ses) c)
        (last_alert_state ses c) = Inr (evs, last_alert_state ses' c)"
      and "of_coin c out = evs"
      by (auto simp: of_coin_Nil)
    then show ?thesis using alert_body_directions by blast
  next
    case False
    from alert_loop_other [OF False loop] show ?thesis by (simp add: of_coin_Nil)
  qed
qed

theorem events_per_cycle_witness:
  "evaluate ''dogecoin'' 45 ''usd''
      \<lparr>coin = ''dogecoin'', lower = Number (Fin 50), upper = Number (Fin 40)\<rparr> cleared
     = Inr ([below_alert ''dogecoin'' 45 ''usd'' (Number (Fin 50)),
             above_alert ''dogecoin'' 45 ''usd'' (Number (Fin 40))],
            \<lparr>above = True, below = True\<rparr>)
   \<and> map direction [below_alert ''dogecoin'' 45 ''usd'' (Number (Fin 50)),
                     above_alert ''dogecoin'' 45 ''usd'' (Number (Fin 40))]
       \<in> {[], [Below], [Above], [Below, Above]}
   \<and> distinct [''dogecoin'']
   \<and> cycle [''dogecoin''] ''usd'' (one_quote ''dogecoin'' ''usd'' 45)
        (first_session [\<lparr>coin = ''dogecoin'', lower = Number (Fin 50), upper = Number (Fin 40)\<rparr>])
     = (\<lparr>history = [''dogecoin'' \<mapsto> [45]],
         last_alert_state = [''dogecoin'' \<mapsto> \<lparr>above = True, below = True\<rparr>],
         thresholds = [\<lparr>coin = ''dogecoin'', lower = Number (Fin 50), upper = Number (Fin 40)\<rparr>]\<rparr>,
        Inr [below_alert ''dogecoin'' 45 ''usd'' (Number (Fin 50)),
             above_alert ''dogecoin'' 45 ''usd'' (Number (Fin 40))])
   \<and> map direction (of_coin ''dogecoin''
         [below_alert ''dogecoin'' 45 ''usd'' (Number (Fin 50)),
          above_alert ''dogecoin'' 45 ''usd'' (Number (Fin 40))])
       \<in> {[], [Below], [Above], [Below, Above]}"
proof -
  let ?row = "\<lparr>coin = ''dogecoin'', lower = Number (Fin 50), upper = Number (Fin 40)\<rparr>"
  let ?evs = "[below_alert ''dogecoin'' 45 ''usd'' (Number (Fin 50)),
               above_alert ''dogecoin'' 45 ''usd'' (Number (Fin 40))]"
  let ?ses = "\<lparr>history = [''dogecoin'' \<mapsto> [45]],
         last_alert_state = [''dogecoin'' \<mapsto> \<lparr>above = True, below = True\<rparr>],
         thresholds = [?row]\<rparr>"
  have e: "evaluate ''dogecoin'' 45 ''usd'' ?row cleared = Inr (?evs, \<lparr>above = True, below = True\<rparr>)"
    by (simp add: scenario_defs)
  have d: "distinct [''dogecoin'']" by simp
  have r: "cycle [''dogecoin''] ''usd'' (one_quote ''dogecoin'' ''usd'' 45) (first_session [?row])
      = (?ses, Inr ?evs)"
    by (simp add: scenario_defs)
  from events_per_cycle [of "''dogecoin''" 45 "''usd''" ?row cleared ?evs
      "\<lparr>above = True, below = True\<rparr>" "[''dogecoin'']" "one_quote ''dogecoin'' ''usd'' 45"
      "first_session [?row]" ?ses ?evs] e d r
  have "map direction ?evs \<in> {[], [Below], [Above], [Below, Above]}
      \<and> map direction (of_coin ''dogecoin'' ?evs) \<in> {[], [Below], [Above], [Below, Above]}"
    by blast
  with e d r show ?thesis by blast
qed

end
